theory Spec2Isabelle
  imports Main "HOL-Library.Word"
begin

unbundle bit_operations_syntax

section \<open>CircularBuffer (circular\_buffer.h, circular\_buffer.cpp)\<close>

text \<open>
  \<open>size_t\<close> is a 64-bit unsigned integer, \<open>int16_t\<close> a 16-bit sample. The class is a
  record of its data members; the mutex and the two condition variables carry no data and
  appear in the model as the points where a call waits (see \<open>status\<close> below).
\<close>

type_synonym size_t = "64 word"
type_synonym int16_t = "16 word"

record CircularBuffer =
  buffer :: "int16_t list"
  readPos :: size_t
  writePos :: size_t
  bufferSize :: size_t
  bufferMask :: size_t
  closed :: bool

datatype exception = invalid_argument string | length_error | bad_alloc

text \<open>
  The constructor: \<open>if ((size & (size - 1)) != 0) throw std::invalid_argument(...)\<close>,
  then \<open>bufferSize = size; bufferMask = size - 1; buffer.resize(size)\<close>.

  \<open>buffer.resize(size)\<close> on the empty \<open>std::vector<int16_t>\<close> is the standard library's:
  it throws \<open>std::length_error\<close> when \<open>size\<close> is larger than the vector's
  \<open>max_size()\<close>, does nothing for \<open>size = 0\<close>, otherwise asks the allocator for
  \<open>size\<close> samples, throws \<open>std::bad_alloc\<close> if it does not get them, and fills them
  with zeroes. The library and the machine are not part of the program: \<open>max_size\<close> and
  \<open>allocates\<close> (whether the allocator delivers \<open>n\<close> samples) are parameters.
\<close>

definition CircularBuffer_ctor ::
  "nat \<Rightarrow> (nat \<Rightarrow> bool) \<Rightarrow> size_t \<Rightarrow> exception + CircularBuffer" where
  "CircularBuffer_ctor max_size allocates sz =
     (if sz AND (sz - 1) \<noteq> 0
      then Inl (invalid_argument ''Buffer size must be a power of 2'')
      else if max_size < unat sz then Inl length_error
      else if unat sz \<noteq> 0 \<and> \<not> allocates (unat sz) then Inl bad_alloc
      else Inr \<lparr>buffer = replicate (unat sz) 0, readPos = 0, writePos = 0,
                bufferSize = sz, bufferMask = sz - 1, closed = False\<rparr>)"

definition availableRead :: "CircularBuffer \<Rightarrow> size_t" where
  "availableRead cb = (writePos cb - readPos cb) AND bufferMask cb"

definition availableWrite :: "CircularBuffer \<Rightarrow> size_t" where
  "availableWrite cb = bufferSize cb - 1 - availableRead cb"

definition CircularBuffer_close :: "CircularBuffer \<Rightarrow> CircularBuffer" where
  "CircularBuffer_close cb = cb\<lparr>closed := True\<rparr>"

text \<open>
  \<open>write\<close> and \<open>read\<close> hold the mutex except while they sit in
  \<open>wait_for\<close>, where the lock is released and the other thread may run. One call is
  therefore a sequence of atomic sections, each ending either in \<open>return\<close> or in
  \<open>wait_for\<close>; \<open>status\<close> says which.

  The caller's array and its length are one list: \<open>size\<close> is \<open>length data\<close>, and the
  counters \<open>written\<close>, \<open>read\<close>, \<open>toWrite\<close>, \<open>toRead\<close>, which never exceed it, are
  natural numbers. The cursors, the mask and \<open>available\<close> stay 64-bit words.
\<close>

datatype status = Returned | Waiting

text \<open>
  The copy loops
  \<open>for (i = 0; i < toWrite; i++) buffer[(writePos + i) & bufferMask] = data[written + i]\<close> and
  \<open>for (i = 0; i < toRead; i++) data[read + i] = buffer[(readPos + i) & bufferMask]\<close>.
\<close>

definition copy_in :: "CircularBuffer \<Rightarrow> int16_t list \<Rightarrow> nat \<Rightarrow> nat \<Rightarrow> int16_t list" where
  "copy_in cb data written toWrite =
     fold (\<lambda>i b. b[unat ((writePos cb + of_nat i) AND bufferMask cb) := data ! (written + i)])
       [0..<toWrite] (buffer cb)"

definition copy_out :: "CircularBuffer \<Rightarrow> nat \<Rightarrow> int16_t list" where
  "copy_out cb toRead =
     map (\<lambda>i. buffer cb ! unat ((readPos cb + of_nat i) AND bufferMask cb)) [0..<toRead]"

text \<open>
  The body of \<open>write\<close> from the \<open>while (written < size && !closed)\<close> test up to the next
  \<open>wait_for\<close> or the \<open>return written\<close>.
\<close>

function write_loop :: "CircularBuffer \<Rightarrow> int16_t list \<Rightarrow> nat \<Rightarrow> CircularBuffer \<times> nat \<times> status" where
  "write_loop cb data written =
     (if written < length data \<and> \<not> closed cb then
        let available = availableWrite cb in
        if available = 0 then (cb, written, Waiting)
        else
          let toWrite = min (unat available) (length data - written) in
          write_loop
            (cb\<lparr>buffer := copy_in cb data written toWrite,
                writePos := (writePos cb + of_nat toWrite) AND bufferMask cb\<rparr>)
            data (written + toWrite)
      else (cb, written, Returned))"
  by pat_completeness auto
termination
proof (relation "measure (\<lambda>(cb, data, written). length data - written)")
  show "wf (measure (\<lambda>(cb, data, written). length data - written))"
    by simp
next
  fix cb :: CircularBuffer and data :: "int16_t list" and written :: nat
    and x :: size_t and xa :: nat
  assume a: "written < length data \<and> \<not> closed cb" "x = availableWrite cb" "x \<noteq> 0"
    "xa = min (unat x) (length data - written)"
  have "0 < unat x"
    using a(3) by (simp add: unat_gt_0)
  with a(1,4) have "0 < xa"
    by simp
  with a(1) show "((cb\<lparr>buffer := copy_in cb data written xa,
                      writePos := (writePos cb + of_nat xa) AND bufferMask cb\<rparr>,
                    data, written + xa), cb, data, written)
      \<in> measure (\<lambda>(cb, data, written). length data - written)"
    by auto
qed

declare write_loop.simps [simp del]

text \<open>\<open>write\<close> up to its first wait: the unlocked \<open>if (closed) return 0\<close>, then the loop.\<close>

definition CircularBuffer_write :: "CircularBuffer \<Rightarrow> int16_t list \<Rightarrow> CircularBuffer \<times> nat \<times> status" where
  "CircularBuffer_write cb data = (if closed cb then (cb, 0, Returned) else write_loop cb data 0)"

text \<open>
  A writer coming back from \<open>wait_for\<close>: \<open>if (closed) break; continue;\<close>.
\<close>

definition write_wake :: "CircularBuffer \<Rightarrow> int16_t list \<Rightarrow> nat \<Rightarrow> CircularBuffer \<times> nat \<times> status" where
  "write_wake cb data written =
     (if closed cb then (cb, written, Returned) else write_loop cb data written)"

text \<open>
  The body of \<open>read\<close> from the \<open>while (read < size)\<close> test up to the next \<open>wait_for\<close> or
  the \<open>return read\<close>. \<open>out\<close> is the part of the caller's array filled so far, so
  \<open>read\<close> is \<open>length out\<close>.
\<close>

function read_loop :: "CircularBuffer \<Rightarrow> nat \<Rightarrow> int16_t list \<Rightarrow> CircularBuffer \<times> int16_t list \<times> status" where
  "read_loop cb sz out =
     (if length out < sz then
        let available = availableRead cb in
        if available = 0 then
          (if closed cb then (cb, out, Returned) else (cb, out, Waiting))
        else
          let toRead = min (unat available) (sz - length out) in
          read_loop
            (cb\<lparr>readPos := (readPos cb + of_nat toRead) AND bufferMask cb\<rparr>)
            sz (out @ copy_out cb toRead)
      else (cb, out, Returned))"
  by pat_completeness auto
termination
proof (relation "measure (\<lambda>(cb, sz, out). sz - length out)")
  show "wf (measure (\<lambda>(cb, sz, out). sz - length out))"
    by simp
next
  fix cb :: CircularBuffer and sz :: nat and out :: "int16_t list"
    and x :: size_t and xa :: nat
  assume a: "length out < sz" "x = availableRead cb" "x \<noteq> 0"
    "xa = min (unat x) (sz - length out)"
  have "0 < unat x"
    using a(3) by (simp add: unat_gt_0)
  with a(1,4) have "0 < xa"
    by simp
  with a(1) show "((cb\<lparr>readPos := (readPos cb + of_nat xa) AND bufferMask cb\<rparr>,
                    sz, out @ copy_out cb xa), cb, sz, out)
      \<in> measure (\<lambda>(cb, sz, out). sz - length out)"
    by (simp add: copy_out_def)
qed

declare read_loop.simps [simp del]

definition CircularBuffer_read :: "CircularBuffer \<Rightarrow> nat \<Rightarrow> CircularBuffer \<times> int16_t list \<times> status" where
  "CircularBuffer_read cb sz = read_loop cb sz []"

text \<open>
  A reader coming back from \<open>wait_for\<close>: \<open>if (closed) break; continue;\<close>.
\<close>

definition read_wake :: "CircularBuffer \<Rightarrow> nat \<Rightarrow> int16_t list \<Rightarrow> CircularBuffer \<times> int16_t list \<times> status" where
  "read_wake cb sz out =
     (if closed cb then (cb, out, Returned) else read_loop cb sz out)"

subsection \<open>What the channel holds\<close>

text \<open>
  The unread samples, oldest first: the \<open>availableRead\<close> cells from \<open>readPos\<close> on.
\<close>

definition contents :: "CircularBuffer \<Rightarrow> int16_t list" where
  "contents cb = copy_out cb (unat (availableRead cb))"

text \<open>
  The state of a channel of capacity \<open>2 ^ k\<close>: what the constructor sets up for a
  power-of-two size, with both cursors inside the array.
\<close>

definition chan_inv :: "nat \<Rightarrow> CircularBuffer \<Rightarrow> bool" where
  "chan_inv k cb =
     (k < 64 \<and> bufferSize cb = 2 ^ k \<and> bufferMask cb = 2 ^ k - 1 \<and>
      length (buffer cb) = 2 ^ k \<and>
      unat (readPos cb) < 2 ^ k \<and> unat (writePos cb) < 2 ^ k)"

subsection \<open>One writer thread, one reader thread\<close>

text \<open>
  Each channel has one producer and one consumer. A thread is either outside the channel
  or parked in \<open>wait_for\<close> in the middle of a call, with the call's local variables.
  \<open>writes\<close> and \<open>reads\<close> record the calls that have returned, in order: the samples
  passed to \<open>write\<close> with the count it returned, and the count asked of \<open>read\<close> with
  the samples it delivered.
\<close>

datatype writer_state = WriterIdle | WriterWaiting "int16_t list" nat

datatype reader_state = ReaderIdle | ReaderWaiting nat "int16_t list"

record pipe =
  chan :: CircularBuffer
  writer :: writer_state
  reader :: reader_state
  writes :: "(int16_t list \<times> nat) list"
  reads :: "(nat \<times> int16_t list) list"

definition new_pipe :: "CircularBuffer \<Rightarrow> pipe" where
  "new_pipe cb = \<lparr>chan = cb, writer = WriterIdle, reader = ReaderIdle, writes = [], reads = []\<rparr>"

fun writer_section :: "pipe \<Rightarrow> int16_t list \<Rightarrow> CircularBuffer \<times> nat \<times> status \<Rightarrow> pipe" where
  "writer_section p data (cb, written, Returned) =
     p\<lparr>chan := cb, writer := WriterIdle, writes := writes p @ [(data, written)]\<rparr>"
| "writer_section p data (cb, written, Waiting) =
     p\<lparr>chan := cb, writer := WriterWaiting data written\<rparr>"

fun reader_section :: "pipe \<Rightarrow> nat \<Rightarrow> CircularBuffer \<times> int16_t list \<times> status \<Rightarrow> pipe" where
  "reader_section p sz (cb, out, Returned) =
     p\<lparr>chan := cb, reader := ReaderIdle, reads := reads p @ [(sz, out)]\<rparr>"
| "reader_section p sz (cb, out, Waiting) =
     p\<lparr>chan := cb, reader := ReaderWaiting sz out\<rparr>"

text \<open>
  The atomic sections the two threads and \<open>close()\<close> can run, in any order. \<open>None\<close>: the
  event cannot happen in this state (a thread that is parked cannot start a call, a thread
  that is not parked cannot wake).
\<close>

datatype event = Write "int16_t list" | WriterWakes | Read nat | ReaderWakes | Close

fun step :: "event \<Rightarrow> pipe \<Rightarrow> pipe option" where
  "step (Write data) p =
     (case writer p of
        WriterIdle \<Rightarrow> Some (writer_section p data (CircularBuffer_write (chan p) data))
      | WriterWaiting d w \<Rightarrow> None)"
| "step WriterWakes p =
     (case writer p of
        WriterIdle \<Rightarrow> None
      | WriterWaiting data written \<Rightarrow>
          Some (writer_section p data (write_wake (chan p) data written)))"
| "step (Read sz) p =
     (case reader p of
        ReaderIdle \<Rightarrow> Some (reader_section p sz (CircularBuffer_read (chan p) sz))
      | ReaderWaiting n out \<Rightarrow> None)"
| "step ReaderWakes p =
     (case reader p of
        ReaderIdle \<Rightarrow> None
      | ReaderWaiting sz out \<Rightarrow> Some (reader_section p sz (read_wake (chan p) sz out)))"
| "step Close p = Some (p\<lparr>chan := CircularBuffer_close (chan p)\<rparr>)"

fun run :: "event list \<Rightarrow> pipe \<Rightarrow> pipe option" where
  "run [] p = Some p"
| "run (e # es) p = (case step e p of None \<Rightarrow> None | Some p' \<Rightarrow> run es p')"

text \<open>The samples moved so far by the call a parked thread is in the middle of.\<close>

fun writer_accepted :: "writer_state \<Rightarrow> int16_t list" where
  "writer_accepted WriterIdle = []"
| "writer_accepted (WriterWaiting data written) = take written data"

fun reader_taken :: "reader_state \<Rightarrow> int16_t list" where
  "reader_taken ReaderIdle = []"
| "reader_taken (ReaderWaiting sz out) = out"

text \<open>All samples passed to \<open>write\<close> and all samples returned by \<open>read\<close>, concatenated.\<close>

definition passed_to_write :: "pipe \<Rightarrow> int16_t list" where
  "passed_to_write p = concat (map fst (writes p))"

definition accepted_by_write :: "pipe \<Rightarrow> int16_t list" where
  "accepted_by_write p = concat (map (\<lambda>(data, written). take written data) (writes p))"

definition returned_by_read :: "pipe \<Rightarrow> int16_t list" where
  "returned_by_read p = concat (map snd (reads p))"

text \<open>
  What holds of the two threads and the channel between any two atomic sections: the
  channel is well formed, the samples handed out followed by the samples still buffered
  are the samples taken in, a parked writer's count is within its data, and while the
  channel is open every \<open>write\<close> that returned took all it was given.
\<close>

definition pipe_inv :: "nat \<Rightarrow> pipe \<Rightarrow> bool" where
  "pipe_inv k p =
     (chan_inv k (chan p) \<and>
      returned_by_read p @ reader_taken (reader p) @ contents (chan p)
        = accepted_by_write p @ writer_accepted (writer p) \<and>
      (case writer p of WriterIdle \<Rightarrow> True | WriterWaiting data written \<Rightarrow> written \<le> length data) \<and>
      (closed (chan p) \<or> accepted_by_write p = passed_to_write p))"

section \<open>ErrorHandler (beamformer\_defs.h, error\_handler.h, error\_handler.cpp)\<close>

datatype AppState = STATE_INIT | STATE_RUNNING | STATE_ERROR | STATE_RECOVERY | STATE_TERMINATING

datatype ErrorType =
  ERROR_NONE | ERROR_ALSA_XRUN | ERROR_ALSA_SUSPEND | ERROR_PROCESSING | ERROR_SYSTEM

datatype log_level = LOG_ERR | LOG_WARNING | LOG_INFO

text \<open>\<open>std::to_string(state)\<close>: the enumerator's number.\<close>

fun to_string_AppState :: "AppState \<Rightarrow> string" where
  "to_string_AppState STATE_INIT = ''0''"
| "to_string_AppState STATE_RUNNING = ''1''"
| "to_string_AppState STATE_ERROR = ''2''"
| "to_string_AppState STATE_RECOVERY = ''3''"
| "to_string_AppState STATE_TERMINATING = ''4''"

text \<open>
  The data members. \<open>errorMutex\<close> is true while the mutex is locked. \<open>logger\<close> is the
  sequence of calls \<open>logger->log(level, message)\<close> made so far; what the log sink keeps of
  them is its own business. The watchdog thread object is not data: its code is
  \<open>watchdogLoop\<close> below.
\<close>

record ErrorHandler =
  globalState :: AppState
  lastError :: ErrorType
  errorMutex :: bool
  logger :: "(log_level \<times> string) list"
  watchdogRunning :: bool
  watchdogPing :: bool

definition ErrorHandler_ctor :: ErrorHandler where
  "ErrorHandler_ctor =
     \<lparr>globalState = STATE_INIT, lastError = ERROR_NONE, errorMutex = False, logger = [],
      watchdogRunning = False, watchdogPing = False\<rparr>"

definition log :: "ErrorHandler \<Rightarrow> log_level \<Rightarrow> string \<Rightarrow> ErrorHandler" where
  "log eh level message = eh\<lparr>logger := logger eh @ [(level, message)]\<rparr>"

definition setGlobalState :: "ErrorHandler \<Rightarrow> AppState \<Rightarrow> ErrorHandler" where
  "setGlobalState eh state =
     log (eh\<lparr>globalState := state\<rparr>) LOG_INFO
       (''Global state changed to: '' @ to_string_AppState state)"

definition getGlobalState :: "ErrorHandler \<Rightarrow> AppState" where
  "getGlobalState eh = globalState eh"

text \<open>
  A call either returns or never does. \<open>std::lock_guard<std::mutex> lock(errorMutex)\<close>
  locks a \<open>std::mutex\<close>, which is not recursive: a thread that locks it while it is
  locked waits until it is unlocked, and when the thread holding it is the caller itself
  that never happens. \<open>Deadlock\<close> carries the state in which the thread is stuck. The guard
  unlocks when its function returns.
\<close>

datatype 'a outcome = Done 'a | Deadlock ErrorHandler

definition lock_guard :: "ErrorHandler \<Rightarrow> ErrorHandler outcome" where
  "lock_guard eh = (if errorMutex eh then Deadlock eh else Done (eh\<lparr>errorMutex := True\<rparr>))"

definition unlock :: "ErrorHandler \<Rightarrow> ErrorHandler" where
  "unlock eh = eh\<lparr>errorMutex := False\<rparr>"

definition recoverFromError :: "ErrorHandler \<Rightarrow> (bool \<times> ErrorHandler) outcome" where
  "recoverFromError eh =
     (case lock_guard eh of
        Deadlock e \<Rightarrow> Deadlock e
      | Done eh1 \<Rightarrow>
          let eh2 = setGlobalState eh1 STATE_RECOVERY;
              recovered =
                (case lastError eh2 of
                   ERROR_ALSA_XRUN \<Rightarrow> True
                 | ERROR_ALSA_SUSPEND \<Rightarrow> True
                 | ERROR_PROCESSING \<Rightarrow> False
                 | ERROR_SYSTEM \<Rightarrow> False
                 | ERROR_NONE \<Rightarrow> False);
              eh3 = (if \<not> recovered then setGlobalState eh2 STATE_ERROR else eh2)
          in Done (recovered, unlock eh3))"

fun error_prefix :: "ErrorType \<Rightarrow> string" where
  "error_prefix ERROR_ALSA_XRUN = ''ALSA xrun error: ''"
| "error_prefix ERROR_ALSA_SUSPEND = ''ALSA suspend error: ''"
| "error_prefix ERROR_PROCESSING = ''Processing error: ''"
| "error_prefix ERROR_SYSTEM = ''System error: ''"
| "error_prefix ERROR_NONE = ''Unknown error: ''"

definition reportError :: "ErrorHandler \<Rightarrow> ErrorType \<Rightarrow> string \<Rightarrow> ErrorHandler outcome" where
  "reportError eh err details =
     (case lock_guard eh of
        Deadlock e \<Rightarrow> Deadlock e
      | Done eh1 \<Rightarrow>
          let eh2 = eh1\<lparr>lastError := err\<rparr>;
              eh3 = log eh2 LOG_ERR (error_prefix err @ details);
              eh4 = setGlobalState eh3 STATE_ERROR
          in (case recoverFromError eh4 of
                Deadlock e \<Rightarrow> Deadlock e
              | Done (recovered, eh5) \<Rightarrow>
                  Done (unlock
                    (if recovered
                     then setGlobalState (log eh5 LOG_INFO ''Recovered from error'') STATE_RUNNING
                     else eh5))))"

subsection \<open>Watchdog\<close>

definition WATCHDOG_TIMEOUT_MS :: nat where
  "WATCHDOG_TIMEOUT_MS = 5000"

text \<open>
  \<open>startWatchdog\<close> returns \<open>true\<close> on both paths; on the second it starts the thread that
  runs \<open>watchdogLoop\<close>.
\<close>

definition startWatchdog :: "ErrorHandler \<Rightarrow> ErrorHandler" where
  "startWatchdog eh =
     (if watchdogRunning eh then eh
      else log (eh\<lparr>watchdogRunning := True, watchdogPing := True\<rparr>) LOG_INFO ''Watchdog started'')"

definition pingWatchdog :: "ErrorHandler \<Rightarrow> ErrorHandler" where
  "pingWatchdog eh = eh\<lparr>watchdogPing := True\<rparr>"

text \<open>
  While the watchdog thread sleeps 100 ms, the other threads may do nothing to its flags,
  call \<open>pingWatchdog()\<close>, or call \<open>stopWatchdog()\<close>, whose first effect is
  \<open>watchdogRunning = false\<close> (it then joins the thread).
\<close>

datatype tick = Quiet | Ping | Stop

fun sleep_for :: "tick \<Rightarrow> ErrorHandler \<Rightarrow> ErrorHandler" where
  "sleep_for Quiet eh = eh"
| "sleep_for Ping eh = pingWatchdog eh"
| "sleep_for Stop eh = eh\<lparr>watchdogRunning := False\<rparr>"

text \<open>
  \<open>for (int i = 0; i < WATCHDOG_TIMEOUT_MS / 100 && watchdogRunning; i++) sleep_for(100 ms)\<close>.
  \<open>ts\<close> lists what happens during each sleep of the window; sleeps beyond the list are
  quiet.
\<close>

function wait_timeout :: "nat \<Rightarrow> tick list \<Rightarrow> ErrorHandler \<Rightarrow> ErrorHandler" where
  "wait_timeout i ts eh =
     (if i < WATCHDOG_TIMEOUT_MS div 100 \<and> watchdogRunning eh
      then wait_timeout (i + 1) (tl ts) (sleep_for (case ts of [] \<Rightarrow> Quiet | t # _ \<Rightarrow> t) eh)
      else eh)"
  by pat_completeness auto
termination
  by (relation "measure (\<lambda>(i, ts, eh). WATCHDOG_TIMEOUT_MS div 100 - i)") auto

declare wait_timeout.simps [simp del]

text \<open>
  The thread's \<open>while (watchdogRunning)\<close> loop, one timeout window per element of the
  input. \<open>Monitoring\<close>: the windows given are over and the thread is at the top of the
  loop; \<open>Exited\<close>: the loop was left and the thread has ended; \<open>Stuck\<close>: the thread hangs
  inside \<open>reportError\<close>.
\<close>

datatype watchdog = Monitoring ErrorHandler | Exited ErrorHandler | Stuck ErrorHandler

fun watchdog_while :: "tick list list \<Rightarrow> ErrorHandler \<Rightarrow> watchdog" where
  "watchdog_while [] eh = Monitoring eh"
| "watchdog_while (w # ws) eh =
     (if watchdogRunning eh then
        let eh1 = wait_timeout 0 w eh in
        if \<not> watchdogRunning eh1 then Exited (log eh1 LOG_INFO ''Watchdog thread stopped'')
        else
          (case (if \<not> watchdogPing eh1
                 then reportError (log eh1 LOG_ERR ''Watchdog timeout - system stalled'')
                        ERROR_SYSTEM ''Watchdog timeout''
                 else Done eh1) of
             Deadlock e \<Rightarrow> Stuck e
           | Done eh2 \<Rightarrow> watchdog_while ws (eh2\<lparr>watchdogPing := False\<rparr>))
      else Exited (log eh LOG_INFO ''Watchdog thread stopped''))"

definition watchdogLoop :: "tick list list \<Rightarrow> ErrorHandler \<Rightarrow> watchdog" where
  "watchdogLoop ws eh = watchdog_while ws (log eh LOG_INFO ''Watchdog thread started'')"

section \<open>The stage threads (audio\_capture.cpp, alsa\_output.cpp)\<close>

text \<open>
  A stage thread is modelled by what it does to the things around it: the lines it logs,
  its sleeps (in ms), the samples it hands to its channel and the calls it makes on the
  PCM device. \<open>PcmWrite\<close> carries the \<open>periodSize\<close> samples passed to
  \<open>snd_pcm_writei\<close>. What the device, the channel and the other threads answer in each
  pass of the loop is the input of the model.
\<close>

datatype action =
    Log log_level string
  | Sleep nat
  | ChannelWrite "int16_t list"
  | PcmWrite "int16_t list"
  | PcmRecover
  | PcmResume
  | PcmPrepare

text \<open>\<open>std::to_string\<close> of an integer, in decimal.\<close>

fun to_string_nat :: "nat \<Rightarrow> string" where
  "to_string_nat n =
     (if n < 10 then [''0123456789'' ! n]
      else to_string_nat (n div 10) @ [''0123456789'' ! (n mod 10)])"

declare to_string_nat.simps [simp del]

definition to_string :: "int \<Rightarrow> string" where
  "to_string i = (if i < 0 then CHR ''-'' # to_string_nat (nat (- i)) else to_string_nat (nat i))"

text \<open>The values of \<open>errno.h\<close> on Linux.\<close>

definition EAGAIN :: int where "EAGAIN = 11"
definition EPIPE :: int where "EPIPE = 32"
definition ESTRPIPE :: int where "ESTRPIPE = 86"

definition paused :: "AppState \<Rightarrow> bool" where
  "paused state = (state = STATE_ERROR \<or> state = STATE_RECOVERY \<or> state = STATE_TERMINATING)"

subsection \<open>AudioCapture::captureLoop\<close>

text \<open>
  One pass of the \<open>while (running)\<close> loop sees: the value of \<open>running\<close>; a
  \<open>setState\<close> by the application since the last pass, if any; the return value of
  \<open>snd_pcm_readi\<close> and the contents of \<open>buffer\<close> after it; the return value of
  \<open>xrunRecovery\<close> (alsa\_common.cpp, which talks to the device), if it is called; and the
  return value of \<open>outputBuffer->write\<close>, if it is called.
\<close>

record capture_io =
  c_running :: bool
  c_setState :: "AppState option"
  c_readi :: int
  c_buffer :: "int16_t list"
  c_xrunRecovery :: int
  c_written :: nat

text \<open>\<open>(int) x\<close> for a \<open>long\<close> \<open>x\<close>: the low 32 bits, signed.\<close>

definition to_int :: "int \<Rightarrow> int" where
  "to_int x = sint (word_of_int x :: 32 word)"

text \<open>
  The scan of the first \<open>min((int)(frames * channels), 100)\<close> samples for
  \<open>hasNonZeroSamples\<close> and \<open>maxSample\<close>. \<open>buffer\<close> holds \<open>periodSize * channels\<close>
  samples and \<open>snd_pcm_readi\<close> returns at most \<open>periodSize\<close> frames, so the scan stays
  inside it. (\<open>buf\<close> is the local \<open>buffer\<close>.)
\<close>

definition scan_samples :: "int \<Rightarrow> nat \<Rightarrow> int16_t list \<Rightarrow> bool \<times> int16_t" where
  "scan_samples frames channels buf =
     fold (\<lambda>x (hasNonZeroSamples, maxSample).
             if x \<noteq> 0
             then (True, if \<bar>sint x\<bar> > \<bar>sint maxSample\<bar> then x else maxSample)
             else (hasNonZeroSamples, maxSample))
       (take (nat (min (to_int (frames * int channels)) 100)) buf) (False, 0)"

text \<open>
  The body of the loop. The thread either goes on to the next pass, with its \<open>state\<close> and
  the registry, or hangs in \<open>reportError\<close>.
\<close>

datatype capture_pass = Goes_on "action list" AppState ErrorHandler | Hangs "action list" ErrorHandler

definition capture_body ::
  "(int \<Rightarrow> string) \<Rightarrow> nat \<Rightarrow> capture_io \<Rightarrow> AppState \<Rightarrow> ErrorHandler \<Rightarrow> capture_pass" where
  "capture_body snd_strerror channels io state eh =
     (if paused state then Goes_on [Sleep 100] state eh
      else
        let frames = c_readi io; buf = c_buffer io in
        if frames < 0 then
          (if c_xrunRecovery io < 0 then
             (case reportError eh ERROR_ALSA_XRUN (''Read error: '' @ snd_strerror frames) of
                Deadlock e \<Rightarrow>
                  Hangs [Log LOG_WARNING (''ALSA read error: '' @ snd_strerror frames)] e
              | Done eh' \<Rightarrow>
                  Goes_on [Log LOG_WARNING (''ALSA read error: '' @ snd_strerror frames)]
                    STATE_ERROR eh')
           else Goes_on [Log LOG_WARNING (''ALSA read error: '' @ snd_strerror frames)] state eh)
        else if frames > 0 then
          (case scan_samples frames channels buf of
             (hasNonZeroSamples, maxSample) \<Rightarrow>
               if \<not> hasNonZeroSamples
               then Goes_on [Log LOG_WARNING ''All audio samples are zero''] state eh
               else
                 let samplesToWrite = nat (frames * int channels);
                     written = c_written io
                 in Goes_on
                      [Log LOG_INFO (''Captured '' @ to_string frames @ '' frames, max amplitude: ''
                                       @ to_string (sint maxSample)),
                       ChannelWrite (take samplesToWrite buf),
                       if written < samplesToWrite
                       then Log LOG_WARNING (''Buffer overflow, dropped ''
                              @ to_string (int (samplesToWrite - written)) @ '' samples'')
                       else Log LOG_INFO (''Wrote '' @ to_string (int written)
                              @ '' samples to output buffer'')]
                      state eh)
        else Goes_on [Log LOG_WARNING (''ALSA read returned '' @ to_string frames @ '' frames''),
                      Sleep 10] state eh)"

text \<open>
  The loop, one element of the input per pass. The result is what the thread did and
  whether it is still looping (inputs used up), has left the loop, or hangs.
\<close>

datatype thread_end = Looping | Stopped | Hung

fun capture_while ::
  "(int \<Rightarrow> string) \<Rightarrow> nat \<Rightarrow> capture_io list \<Rightarrow> AppState \<Rightarrow> ErrorHandler
     \<Rightarrow> action list \<times> thread_end" where
  "capture_while snd_strerror channels [] state eh = ([], Looping)"
| "capture_while snd_strerror channels (io # ios) state eh =
     (if \<not> c_running io then ([Log LOG_INFO ''Capture thread stopped''], Stopped)
      else
        (case capture_body snd_strerror channels io
                (case c_setState io of None \<Rightarrow> state | Some s \<Rightarrow> s) eh of
           Hangs acts e \<Rightarrow> (acts, Hung)
         | Goes_on acts state' eh' \<Rightarrow>
             (case capture_while snd_strerror channels ios state' eh' of
                (rest, e) \<Rightarrow> (acts @ rest, e))))"

definition captureLoop ::
  "(int \<Rightarrow> string) \<Rightarrow> nat \<Rightarrow> nat \<Rightarrow> capture_io list \<Rightarrow> AppState \<Rightarrow> ErrorHandler
     \<Rightarrow> action list \<times> thread_end" where
  "captureLoop snd_strerror periodSize channels ios state eh =
     (case capture_while snd_strerror channels ios state eh of
        (acts, e) \<Rightarrow>
          (Log LOG_INFO (''Capture thread started, reading '' @ to_string (int periodSize)
                           @ '' frames per period'') # acts, e))"

subsection \<open>AlsaOutput::outputLoop\<close>

text \<open>
  One pass of the \<open>while (running)\<close> loop sees: the value of \<open>running\<close>; a
  \<open>setState\<close> by the application since the last pass, if any; the samples
  \<open>inputBuffer->read(buffer.data(), periodSize)\<close> delivered (\<open>read\<close> is their number) and
  the value of \<open>inputBuffer->isClosed()\<close> after it; and the return values of the device
  calls it makes: the first \<open>snd_pcm_writei\<close>, \<open>snd_pcm_recover\<close>, the successive
  \<open>snd_pcm_resume\<close>, \<open>snd_pcm_prepare\<close>, and the \<open>snd_pcm_writei\<close> after recovery.
\<close>

record output_io =
  o_running :: bool
  o_setState :: "AppState option"
  o_read :: "int16_t list"
  o_isClosed :: bool
  o_writei :: int
  o_recover :: int
  o_resume :: "int list"
  o_prepare :: int
  o_retry :: int

text \<open>
  \<open>while ((err = snd_pcm_resume(handle)) == -EAGAIN) sleep_for(100 ms)\<close>: the calls made
  and the first answer other than \<open>-EAGAIN\<close>, or \<open>None\<close> while the device keeps
  answering \<open>-EAGAIN\<close>.
\<close>

fun resume_loop :: "int list \<Rightarrow> action list \<times> int option" where
  "resume_loop [] = ([], None)"
| "resume_loop (err # errs) =
     (if err = - EAGAIN
      then (case resume_loop errs of (acts, r) \<Rightarrow> (PcmResume # Sleep 100 # acts, r))
      else ([PcmResume], Some err))"

text \<open>
  The outcome of the device write of one pass: the frame count the pass ends with, a fault
  that sets \<open>state = STATE_ERROR\<close>, or a thread that is still in the resume loop.
\<close>

datatype transfer = Transferred int | Faulted | Resuming

text \<open>
  The \<open>if (frames < 0)\<close> block: recovery by the kind of error, then the retry.
  \<open>period\<close> is the content of \<open>buffer\<close>, which the retry writes again.
\<close>

definition write_fault ::
  "(int \<Rightarrow> string) \<Rightarrow> output_io \<Rightarrow> int16_t list \<Rightarrow> int \<Rightarrow> action list \<times> transfer" where
  "write_fault snd_strerror io period frames =
     (let warn = Log LOG_WARNING (''ALSA write error: '' @ snd_strerror frames);
          retry =
            (let frames2 = o_retry io in
             if frames2 < 0
             then ([PcmWrite period,
                    Log LOG_ERR (''Failed to write after recovery: '' @ snd_strerror frames2)],
                   Faulted)
             else ([PcmWrite period], Transferred frames2))
      in
      if frames = - EPIPE then
        (let err = o_recover io in
         if err < 0
         then ([warn, Log LOG_WARNING ''ALSA buffer underrun'', PcmRecover,
                Log LOG_ERR (''Cannot recover from underrun: '' @ snd_strerror err)], Faulted)
         else ([warn, Log LOG_WARNING ''ALSA buffer underrun'', PcmRecover] @ fst retry,
               snd retry))
      else if frames = - ESTRPIPE then
        (case resume_loop (o_resume io) of
           (acts, None) \<Rightarrow> ([warn, Log LOG_WARNING ''ALSA suspended''] @ acts, Resuming)
         | (acts, Some err) \<Rightarrow>
             if err < 0 then
               (let err2 = o_prepare io in
                if err2 < 0
                then ([warn, Log LOG_WARNING ''ALSA suspended''] @ acts @
                      [PcmPrepare,
                       Log LOG_ERR (''Cannot recover from suspend: '' @ snd_strerror err2)],
                      Faulted)
                else ([warn, Log LOG_WARNING ''ALSA suspended''] @ acts @ [PcmPrepare]
                        @ fst retry, snd retry))
             else ([warn, Log LOG_WARNING ''ALSA suspended''] @ acts @ fst retry, snd retry))
      else
        (let err = o_recover io in
         if err < 0
         then ([warn, PcmRecover,
                Log LOG_ERR (''Cannot recover from error: '' @ snd_strerror err)], Faulted)
         else ([warn, PcmRecover] @ fst retry, snd retry)))"

text \<open>
  The body of the loop. \<open>buf\<close> is the local \<open>buffer\<close> of \<open>periodSize\<close> samples, which
  lives across passes: \<open>read\<close> overwrites its first \<open>read\<close> cells and \<open>std::fill\<close> zeroes
  the rest on a short read. The pass ends in \<open>continue\<close> or at the bottom of the loop
  (\<open>Next\<close>), in \<open>break\<close> (\<open>Leave\<close>), or inside the resume loop (\<open>Stays\<close>).
\<close>

datatype output_pass =
    Next "action list" AppState "int16_t list"
  | Leave "action list"
  | Stays "action list"

definition output_body ::
  "(int \<Rightarrow> string) \<Rightarrow> nat \<Rightarrow> output_io \<Rightarrow> AppState \<Rightarrow> int16_t list \<Rightarrow> output_pass" where
  "output_body snd_strerror periodSize io state buf =
     (if paused state then Next [Sleep 100] state buf
      else
        let rd = o_read io; read = length rd; buf1 = rd @ drop read buf in
        if read < periodSize \<and> o_isClosed io
        then Leave [Log LOG_INFO ''Input buffer closed, exiting output loop'']
        else if read < periodSize \<and> \<not> read > 0
        then Next [Sleep 10] state buf1
        else
          let pad = (if read < periodSize
                     then [Log LOG_WARNING ''Buffer underrun in output, padding with silence'']
                     else []);
              buf2 = (if read < periodSize
                      then take read buf1 @ replicate (periodSize - read) 0
                      else buf1);
              frames = o_writei io;
              res = (if frames < 0 then write_fault snd_strerror io (take periodSize buf2) frames
                     else ([], Transferred frames))
          in (case snd res of
                Resuming \<Rightarrow> Stays (pad @ [PcmWrite (take periodSize buf2)] @ fst res)
              | Faulted \<Rightarrow> Next (pad @ [PcmWrite (take periodSize buf2)] @ fst res) STATE_ERROR buf2
              | Transferred n \<Rightarrow>
                  Next (pad @ [PcmWrite (take periodSize buf2)] @ fst res @
                     (if n > 0 \<and> n < int periodSize
                      then [Log LOG_WARNING (''Short write: '' @ to_string n @ '' frames of ''
                                               @ to_string (int periodSize))]
                      else if n > 0
                      then [Log LOG_INFO (''Wrote '' @ to_string n @ '' frames to audio output'')]
                      else []))
                    state buf2))"

fun output_while ::
  "(int \<Rightarrow> string) \<Rightarrow> nat \<Rightarrow> output_io list \<Rightarrow> AppState \<Rightarrow> int16_t list
     \<Rightarrow> action list \<times> thread_end" where
  "output_while snd_strerror periodSize [] state buf = ([], Looping)"
| "output_while snd_strerror periodSize (io # ios) state buf =
     (if \<not> o_running io then ([Log LOG_INFO ''Output thread stopped''], Stopped)
      else
        (case output_body snd_strerror periodSize io
                (case o_setState io of None \<Rightarrow> state | Some s \<Rightarrow> s) buf of
           Stays acts \<Rightarrow> (acts, Hung)
         | Leave acts \<Rightarrow> (acts @ [Log LOG_INFO ''Output thread stopped''], Stopped)
         | Next acts state' buf' \<Rightarrow>
             (case output_while snd_strerror periodSize ios state' buf' of
                (rest, e) \<Rightarrow> (acts @ rest, e))))"

text \<open>
  The whole function: \<open>buffer\<close> and \<open>silence\<close> are \<open>periodSize\<close> zeroes, and two periods of
  \<open>silence\<close> go to the device (the return values are ignored) before the loop starts.
\<close>

definition outputLoop ::
  "(int \<Rightarrow> string) \<Rightarrow> nat \<Rightarrow> output_io list \<Rightarrow> AppState \<Rightarrow> action list \<times> thread_end" where
  "outputLoop snd_strerror periodSize ios state =
     (case output_while snd_strerror periodSize ios state (replicate periodSize 0) of
        (acts, e) \<Rightarrow>
          (Log LOG_INFO (''Output thread started, writing '' @ to_string (int periodSize)
                           @ '' frames per period'')
           # PcmWrite (replicate periodSize 0) # PcmWrite (replicate periodSize 0) # acts, e))"

text \<open>What a pass did, and whether every write to the device in a trace is a whole period.\<close>

fun pass_actions :: "output_pass \<Rightarrow> action list" where
  "pass_actions (Next acts state buf) = acts"
| "pass_actions (Leave acts) = acts"
| "pass_actions (Stays acts) = acts"

fun whole_period :: "nat \<Rightarrow> action \<Rightarrow> bool" where
  "whole_period periodSize (PcmWrite d) = (length d = periodSize)"
| "whole_period periodSize a = True"

definition whole_periods :: "nat \<Rightarrow> action list \<Rightarrow> bool" where
  "whole_periods periodSize acts = list_all (whole_period periodSize) acts"

text \<open>
  What holds of the reads of a channel between any two atomic sections: a \<open>read\<close> that has
  returned delivered at most what was asked, and fewer only if the channel is closed; a
  parked reader still lacks samples.
\<close>

definition reads_inv :: "pipe \<Rightarrow> bool" where
  "reads_inv p =
     (list_all (\<lambda>(sz, out). length out \<le> sz \<and> (length out < sz \<longrightarrow> closed (chan p))) (reads p)
      \<and> (case reader p of ReaderIdle \<Rightarrow> True | ReaderWaiting sz out \<Rightarrow> length out < sz))"

section \<open>Cursor arithmetic\<close>

text \<open>
  With a mask of \<open>2 ^ k - 1\<close>, \<open>x & bufferMask\<close> is \<open>x mod 2 ^ k\<close>, and the wrap-around of
  64-bit addition and subtraction disappears modulo \<open>2 ^ k\<close>.
\<close>

lemma and_mask_unat:
  fixes x :: size_t
  shows "unat (x AND (2 ^ k - 1)) = unat x mod 2 ^ k"
proof -
  have "x AND (2 ^ k - 1) = take_bit k x"
    by (simp only: take_bit_eq_mask mask_eq_exp_minus_1)
  then have "unat (x AND (2 ^ k - 1)) = take_bit k (unat x)"
    by (simp only: unsigned_take_bit_eq)
  then show ?thesis
    by (simp only: take_bit_eq_mod)
qed

lemma pow2_dvd_64: "k < 64 \<Longrightarrow> (2::nat) ^ k dvd 2 ^ 64"
  by (rule le_imp_power_dvd) simp

lemma unat_add_mod:
  fixes a b :: size_t
  assumes "k < 64"
  shows "unat (a + b) mod 2 ^ k = (unat a + unat b) mod 2 ^ k"
proof -
  have "unat (a + b) = (unat a + unat b) mod 2 ^ 64"
    by (simp add: unat_word_ariths)
  then show ?thesis
    using pow2_dvd_64 [OF assms] by (simp add: mod_mod_cancel)
qed

lemma unat_sub_mod:
  fixes a b :: size_t
  assumes "k < 64" "unat b < 2 ^ k"
  shows "unat (a - b) mod 2 ^ k = (unat a + 2 ^ k - unat b) mod 2 ^ k"
proof (cases "unat b \<le> unat a")
  case True
  then have "unat (a - b) = unat a - unat b"
    by (simp add: unat_sub_if')
  moreover have "(unat a + 2 ^ k - unat b) = (unat a - unat b) + 2 ^ k"
    using True by simp
  ultimately show ?thesis
    by simp
next
  case False
  then have "unat (a - b) = unat a + 2 ^ 64 - unat b"
    by (simp add: unat_sub_if')
  moreover obtain m :: nat where m: "2 ^ 64 = 2 ^ k * m" "0 < m"
    using pow2_dvd_64 [OF assms(1)] by (metis dvd_def power_not_zero zero_less_iff_neq_zero mult_eq_0_iff zero_neq_numeral)
  moreover have "unat a + 2 ^ 64 - unat b = (unat a + 2 ^ k - unat b) + 2 ^ k * (m - 1)"
  proof -
    have "(2::nat) ^ k * m = 2 ^ k + 2 ^ k * (m - 1)"
      using m(2) by (metis Suc_pred' mult_Suc_right)
    with m(1) assms(2) show ?thesis by simp
  qed
  ultimately show ?thesis
    by simp
qed

lemma pow2_and_pred:
  fixes k :: nat
  shows "(2 ^ k :: size_t) AND (2 ^ k - 1) = 0"
proof -
  have "(2 ^ k :: size_t) AND mask k = 0"
    by (rule bit_eqI) (auto simp add: bit_simps)
  then show ?thesis by (simp only: mask_eq_exp_minus_1)
qed

lemma ring_dist_unique:
  fixes N r a w :: nat
  assumes "r < N" "a < N" "(r + a) mod N = w"
  shows "(w + N - r) mod N = a"
proof (cases "r + a < N")
  case True
  then have "w = r + a" using assms(3) by simp
  then have "w + N - r = a + N" by simp
  then show ?thesis using assms(2) by simp
next
  case False
  then have "(r + a) mod N = r + a - N"
    using assms(1,2) by (simp add: mod_if)
  then have "w + N - r = a" using assms(3) False by simp
  then show ?thesis using assms(2) by simp
qed

lemma ring_dist_sum:
  fixes N r w :: nat
  assumes "r < N" "w < N"
  shows "(r + (w + N - r) mod N) mod N = w"
proof -
  have "(r + (w + N - r) mod N) mod N = (r + (w + N - r)) mod N"
    by (simp add: mod_add_right_eq)
  also have "r + (w + N - r) = w + N" using assms by simp
  finally show ?thesis using assms(2) by simp
qed

lemma ring_inj:
  fixes N x i j :: nat
  assumes "i < N" "j < N" "(x + i) mod N = (x + j) mod N"
  shows "i = j"
proof -
  have "((x + i) mod N + (N - x mod N)) mod N = ((x + j) mod N + (N - x mod N)) mod N"
    using assms(3) by simp
  moreover have "\<And>y. ((x + y) mod N + (N - x mod N)) mod N = y mod N"
  proof -
    fix y
    have "0 < N" using assms(1) by simp
    then have le: "x mod N \<le> N" by (simp add: less_imp_le)
    have "((x + y) mod N + (N - x mod N)) mod N = ((x mod N + y) + (N - x mod N)) mod N"
      by (metis mod_add_left_eq)
    also have "(x mod N + y) + (N - x mod N) = y + N" using le by simp
    finally show "((x + y) mod N + (N - x mod N)) mod N = y mod N" by simp
  qed
  ultimately have "i mod N = j mod N" by simp
  then show ?thesis using assms(1,2) by simp
qed

lemma idx_unat:
  assumes "chan_inv k cb"
  shows "unat ((p + of_nat i) AND bufferMask cb) = (unat p + i) mod 2 ^ k"
proof -
  from assms have k: "k < 64" and m: "bufferMask cb = 2 ^ k - 1"
    by (simp_all add: chan_inv_def)
  have "unat ((p + of_nat i) AND bufferMask cb) = unat (p + of_nat i) mod 2 ^ k"
    by (simp only: m and_mask_unat)
  also have "\<dots> = (unat p + unat (of_nat i :: size_t)) mod 2 ^ k"
    by (rule unat_add_mod [OF k])
  also have "\<dots> = (unat p + (i mod 2 ^ 64) mod 2 ^ k) mod 2 ^ k"
    by (simp add: unat_of_nat mod_add_right_eq)
  also have "(i mod 2 ^ 64) mod 2 ^ k = i mod 2 ^ k"
    using pow2_dvd_64 [OF k] by (simp add: mod_mod_cancel)
  finally show ?thesis
    by (simp add: mod_add_right_eq)
qed

lemma availableRead_unat:
  assumes "chan_inv k cb"
  shows "unat (availableRead cb) = (unat (writePos cb) + 2 ^ k - unat (readPos cb)) mod 2 ^ k"
proof -
  from assms have k: "k < 64" and m: "bufferMask cb = 2 ^ k - 1"
    and r: "unat (readPos cb) < 2 ^ k"
    by (simp_all add: chan_inv_def)
  have "unat (availableRead cb) = unat (writePos cb - readPos cb) mod 2 ^ k"
    by (simp only: availableRead_def m and_mask_unat)
  also have "\<dots> = (unat (writePos cb) + 2 ^ k - unat (readPos cb)) mod 2 ^ k"
    by (rule unat_sub_mod [OF k r])
  finally show ?thesis .
qed

lemma availableRead_less:
  assumes "chan_inv k cb"
  shows "unat (availableRead cb) < 2 ^ k"
  by (simp add: availableRead_unat [OF assms])

lemma pow2_unat:
  assumes "k < 64"
  shows "unat (2 ^ k :: size_t) = 2 ^ k"
proof -
  have "(2 ^ k :: size_t) = of_nat (2 ^ k)"
    by simp
  then have "unat (2 ^ k :: size_t) = 2 ^ k mod 2 ^ 64"
    by (simp only: unat_of_nat) simp
  moreover have "(2 :: nat) ^ k < 2 ^ 64"
    using assms by (simp only: power_strict_increasing_iff)
  ultimately show ?thesis
    by simp
qed

lemma availableWrite_unat:
  assumes "chan_inv k cb"
  shows "unat (availableWrite cb) = 2 ^ k - 1 - unat (availableRead cb)"
proof -
  from assms have k: "k < 64" and b: "bufferSize cb = 2 ^ k"
    by (simp_all add: chan_inv_def)
  have one: "unat (2 ^ k - 1 :: size_t) = 2 ^ k - 1"
  proof -
    have "(1 :: size_t) \<le> 2 ^ k"
      using k by (simp add: word_le_nat_alt pow2_unat)
    then have "unat (2 ^ k - 1 :: size_t) = unat (2 ^ k :: size_t) - unat (1 :: size_t)"
      by (rule unat_sub)
    then show ?thesis using k by (simp add: pow2_unat)
  qed
  have "availableRead cb \<le> 2 ^ k - 1"
    using availableRead_less [OF assms] one by (simp add: word_le_nat_alt)
  then have "unat (2 ^ k - 1 - availableRead cb) = unat (2 ^ k - 1 :: size_t) - unat (availableRead cb)"
    by (rule unat_sub)
  then show ?thesis
    by (simp add: availableWrite_def b one)
qed

section \<open>The copy loops and one pass of each call\<close>

lemma fold_update_length:
  "length (fold (\<lambda>i b. b[g i := f i]) is b) = length b"
  by (induction "is" arbitrary: b) simp_all

lemma fold_update_other:
  assumes "\<forall>i \<in> set is. g i \<noteq> m"
  shows "fold (\<lambda>i b. b[g i := f i]) is b ! m = b ! m"
  using assms by (induction "is" arbitrary: b) simp_all

lemma fold_update_hit:
  assumes "j < n" "\<forall>i < n. g i < length b" "\<forall>i < n. \<forall>i' < n. g i = g i' \<longrightarrow> i = i'"
  shows "fold (\<lambda>i b. b[g i := f i]) [0..<n] b ! g j = f j"
  using assms
proof (induction n arbitrary: j)
  case 0
  then show ?case by simp
next
  case (Suc n)
  let ?b = "fold (\<lambda>i b. b[g i := f i]) [0..<n] b"
  have len: "length ?b = length b" by (rule fold_update_length)
  show ?case
  proof (cases "j = n")
    case True
    then show ?thesis using Suc.prems(2) len by simp
  next
    case False
    then have j: "j < n" using Suc.prems(1) by simp
    have "g n \<noteq> g j"
    proof
      assume "g n = g j"
      moreover have "n < Suc n" "j < Suc n" using j by simp_all
      ultimately have "n = j" using Suc.prems(3) by blast
      then show False using j by simp
    qed
    moreover have "?b ! g j = f j"
      using Suc.IH [OF j] Suc.prems(2,3) by simp
    ultimately show ?thesis by simp
  qed
qed

lemma copy_in_length:
  "length (copy_in cb data written n) = length (buffer cb)"
  by (simp add: copy_in_def fold_update_length)

lemma copy_in_hit:
  assumes inv: "chan_inv k cb" and n: "n \<le> 2 ^ k" and j: "j < n"
  shows "copy_in cb data written n ! ((unat (writePos cb) + j) mod 2 ^ k) = data ! (written + j)"
proof -
  let ?g = "\<lambda>i. unat ((writePos cb + of_nat i) AND bufferMask cb)"
  have g: "\<And>i. ?g i = (unat (writePos cb) + i) mod 2 ^ k"
    by (rule idx_unat [OF inv])
  have len: "length (buffer cb) = 2 ^ k" using inv by (simp add: chan_inv_def)
  have "fold (\<lambda>i b. b[?g i := data ! (written + i)]) [0..<n] (buffer cb) ! ?g j = data ! (written + j)"
  proof (rule fold_update_hit [OF j])
    show "\<forall>i<n. ?g i < length (buffer cb)" by (simp add: g len)
    show "\<forall>i<n. \<forall>i'<n. ?g i = ?g i' \<longrightarrow> i = i'"
      using n by (auto simp: g dest!: ring_inj [rotated 2])
  qed
  then show ?thesis by (simp add: copy_in_def g)
qed

lemma copy_in_other:
  assumes inv: "chan_inv k cb" and "\<forall>i < n. (unat (writePos cb) + i) mod 2 ^ k \<noteq> m"
  shows "copy_in cb data written n ! m = buffer cb ! m"
  unfolding copy_in_def
  by (rule fold_update_other) (simp add: idx_unat [OF inv] assms(2))

lemma contents_nth_view:
  assumes inv: "chan_inv k cb"
  shows "contents cb =
    map (\<lambda>i. buffer cb ! ((unat (readPos cb) + i) mod 2 ^ k)) [0..<unat (availableRead cb)]"
  by (simp add: contents_def copy_out_def idx_unat [OF inv])

lemma contents_length: "length (contents cb) = unat (availableRead cb)"
  by (simp add: contents_def copy_out_def)

lemma write_chunk:
  assumes inv: "chan_inv k cb"
    and n: "n \<le> unat (availableWrite cb)"
    and d: "written + n \<le> length data"
  defines "cb' \<equiv> cb\<lparr>buffer := copy_in cb data written n,
                     writePos := (writePos cb + of_nat n) AND bufferMask cb\<rparr>"
  shows "chan_inv k cb'"
    and "unat (availableRead cb') = unat (availableRead cb) + n"
    and "contents cb' = contents cb @ take n (drop written data)"
proof -
  let ?N = "(2::nat) ^ k"
  let ?r = "unat (readPos cb)"
  let ?w = "unat (writePos cb)"
  let ?a = "unat (availableRead cb)"
  from inv have r: "?r < ?N" and w: "?w < ?N"
    by (simp_all add: chan_inv_def)
  have a: "?a = (?w + ?N - ?r) mod ?N"
    by (rule availableRead_unat [OF inv])
  have an: "?a + n < ?N"
    using n availableWrite_unat [OF inv] availableRead_less [OF inv] by simp
  have ra: "(?r + ?a) mod ?N = ?w"
    unfolding a by (rule ring_dist_sum [OF r w])
  have w': "unat (writePos cb') = (?w + n) mod ?N"
    by (simp add: cb'_def idx_unat [OF inv])
  show inv': "chan_inv k cb'"
    using inv w' by (simp add: chan_inv_def cb'_def copy_in_length)
  have "(?r + (?a + n)) mod ?N = (?w + n) mod ?N"
  proof -
    have "(?r + (?a + n)) mod ?N = ((?r + ?a) mod ?N + n) mod ?N"
      by (simp add: mod_add_left_eq add.assoc)
    then show ?thesis by (simp only: ra)
  qed
  then have "(unat (writePos cb') + ?N - ?r) mod ?N = ?a + n"
    unfolding w' by (intro ring_dist_unique [OF r an])
  moreover have "unat (readPos cb') = ?r"
    by (simp add: cb'_def)
  ultimately show a': "unat (availableRead cb') = ?a + n"
    using availableRead_unat [OF inv'] by simp
  show "contents cb' = contents cb @ take n (drop written data)"
  proof (rule nth_equalityI)
    show "length (contents cb') = length (contents cb @ take n (drop written data))"
      using d by (simp add: contents_length a')
  next
    fix i
    assume "i < length (contents cb')"
    then have i: "i < ?a + n"
      by (simp add: contents_length a')
    have lhs: "contents cb' ! i = copy_in cb data written n ! ((?r + i) mod ?N)"
      using i by (simp add: contents_nth_view [OF inv'] a') (simp add: cb'_def)
    show "contents cb' ! i = (contents cb @ take n (drop written data)) ! i"
    proof (cases "i < ?a")
      case True
      have "\<forall>j<n. (?w + j) mod ?N \<noteq> (?r + i) mod ?N"
      proof (intro allI impI notI)
        fix j
        assume j: "j < n" and eq: "(?w + j) mod ?N = (?r + i) mod ?N"
        have "(?w + j) mod ?N = (?r + (?a + j)) mod ?N"
        proof -
          have "(?r + (?a + j)) mod ?N = ((?r + ?a) mod ?N + j) mod ?N"
            by (simp add: mod_add_left_eq add.assoc)
          then show ?thesis by (simp only: ra)
        qed
        with eq have "(?r + (?a + j)) mod ?N = (?r + i) mod ?N"
          by simp
        moreover have "?a + j < ?N" using an j by simp
        moreover have "i < ?N" using True an by simp
        ultimately have "?a + j = i"
          by (rule ring_inj [rotated 2])
        then show False using True by simp
      qed
      then have "copy_in cb data written n ! ((?r + i) mod ?N) = buffer cb ! ((?r + i) mod ?N)"
        by (rule copy_in_other [OF inv])
      then show ?thesis
        using True lhs by (simp add: nth_append contents_length) (simp add: contents_nth_view [OF inv])
    next
      case False
      define j where "j = i - ?a"
      have j: "j < n" and ij: "i = ?a + j"
        using False i by (simp_all add: j_def)
      have "(?r + i) mod ?N = (?w + j) mod ?N"
      proof -
        have "(?r + (?a + j)) mod ?N = ((?r + ?a) mod ?N + j) mod ?N"
          by (simp add: mod_add_left_eq add.assoc)
        then show ?thesis by (simp only: ra ij)
      qed
      moreover have "n \<le> ?N" using an by simp
      ultimately have "copy_in cb data written n ! ((?r + i) mod ?N) = data ! (written + j)"
        using copy_in_hit [OF inv _ j] by simp
      then show ?thesis
        using False lhs j d by (simp add: nth_append contents_length j_def)
    qed
  qed
qed

lemma read_chunk:
  assumes inv: "chan_inv k cb"
    and n: "n \<le> unat (availableRead cb)"
  defines "cb' \<equiv> cb\<lparr>readPos := (readPos cb + of_nat n) AND bufferMask cb\<rparr>"
  shows "chan_inv k cb'"
    and "unat (availableRead cb') = unat (availableRead cb) - n"
    and "copy_out cb n = take n (contents cb)"
    and "contents cb' = drop n (contents cb)"
proof -
  let ?N = "(2::nat) ^ k"
  let ?r = "unat (readPos cb)"
  let ?w = "unat (writePos cb)"
  let ?a = "unat (availableRead cb)"
  from inv have r: "?r < ?N" and w: "?w < ?N"
    by (simp_all add: chan_inv_def)
  have a: "?a = (?w + ?N - ?r) mod ?N"
    by (rule availableRead_unat [OF inv])
  have aN: "?a < ?N"
    by (rule availableRead_less [OF inv])
  have ra: "(?r + ?a) mod ?N = ?w"
    unfolding a by (rule ring_dist_sum [OF r w])
  have r': "unat (readPos cb') = (?r + n) mod ?N"
    by (simp add: cb'_def idx_unat [OF inv])
  show inv': "chan_inv k cb'"
    using inv r' by (simp add: chan_inv_def cb'_def)
  have "(unat (readPos cb') + (?a - n)) mod ?N = ?w"
  proof -
    have "((?r + n) mod ?N + (?a - n)) mod ?N = (?r + n + (?a - n)) mod ?N"
      by (simp add: mod_add_left_eq)
    also have "?r + n + (?a - n) = ?r + ?a" using n by simp
    finally show ?thesis by (simp only: r' ra)
  qed
  moreover have "unat (readPos cb') < ?N" "?a - n < ?N"
    using aN by (simp_all add: r')
  ultimately have "(?w + ?N - unat (readPos cb')) mod ?N = ?a - n"
    by (intro ring_dist_unique)
  moreover have "unat (writePos cb') = ?w"
    by (simp add: cb'_def)
  ultimately show a': "unat (availableRead cb') = ?a - n"
    using availableRead_unat [OF inv'] by simp
  show "copy_out cb n = take n (contents cb)"
    using n by (simp add: contents_def copy_out_def take_map)
  have "contents cb' = map (\<lambda>i. buffer cb ! ((?r + (n + i)) mod ?N)) [0..<?a - n]"
  proof -
    have "\<And>i. ((?r + n) mod ?N + i) mod ?N = (?r + (n + i)) mod ?N"
      by (simp add: mod_add_left_eq add.assoc)
    then show ?thesis
      by (simp add: contents_nth_view [OF inv'] a' r') (simp add: cb'_def)
  qed
  also have "\<dots> = map (\<lambda>i. buffer cb ! ((?r + i) mod ?N)) (map (\<lambda>i. n + i) [0..<?a - n])"
    by (simp add: comp_def)
  also have "map (\<lambda>i. n + i) [0..<?a - n] = [n..<?a]"
    using n map_add_upt [of n "?a - n"] by (simp add: add.commute)
  also have "map (\<lambda>i. buffer cb ! ((?r + i) mod ?N)) [n..<?a] = drop n (contents cb)"
    by (simp add: contents_nth_view [OF inv] drop_map)
  finally show "contents cb' = drop n (contents cb)" .
qed

lemma read_loop_spec:
  assumes "chan_inv k cb"
  shows "\<exists>cb'. read_loop cb sz out =
           (cb', out @ take (sz - length out) (contents cb),
            if sz \<le> length out + length (contents cb) \<or> closed cb then Returned else Waiting)
         \<and> chan_inv k cb' \<and> contents cb' = drop (sz - length out) (contents cb)
         \<and> closed cb' = closed cb"
  using assms
proof (induction cb sz out rule: read_loop.induct)
  case (1 cb sz out)
  let ?a = "unat (availableRead cb)"
  let ?n = "min ?a (sz - length out)"
  let ?cb1 = "cb\<lparr>readPos := (readPos cb + of_nat ?n) AND bufferMask cb\<rparr>"
  note inv = "1.prems"
  have len: "length (contents cb) = ?a" by (rule contents_length)
  show ?case
  proof (cases "length out < sz")
    case False
    then show ?thesis using inv by (subst read_loop.simps) simp
  next
    case more: True
    show ?thesis
    proof (cases "availableRead cb = 0")
      case True
      then have "contents cb = []" using len by simp
      then show ?thesis using inv more True
        by (subst read_loop.simps) simp
    next
      case False
      then have pos: "0 < ?a" by (simp add: unat_gt_0)
      have n: "?n \<le> ?a" by simp
      note ch = read_chunk [OF inv n]
      from "1.IH" [OF more refl False refl ch(1)]
      obtain cb' where
        r: "read_loop ?cb1 sz (out @ copy_out cb ?n) =
             (cb', (out @ copy_out cb ?n) @ take (sz - length (out @ copy_out cb ?n)) (contents ?cb1),
              if sz \<le> length (out @ copy_out cb ?n) + length (contents ?cb1) \<or> closed ?cb1
              then Returned else Waiting)"
        and inv': "chan_inv k cb'"
        and c': "contents cb' = drop (sz - length (out @ copy_out cb ?n)) (contents ?cb1)"
        and cl: "closed cb' = closed ?cb1"
        by blast
      have lo: "length (copy_out cb ?n) = ?n" by (simp add: copy_out_def)
      have t: "copy_out cb ?n @ take (sz - length out - ?n) (drop ?n (contents cb))
               = take (sz - length out) (contents cb)"
      proof -
        have "take (?n + (sz - length out - ?n)) (contents cb)
              = take ?n (contents cb) @ take (sz - length out - ?n) (drop ?n (contents cb))"
          by (rule take_add)
        moreover have "?n + (sz - length out - ?n) = sz - length out" by simp
        ultimately show ?thesis by (simp only: ch(3))
      qed
      have e: "sz - length out - ?n + ?n = sz - length out"
        by auto
      have d: "drop (sz - length out - ?n) (drop ?n (contents cb)) = drop (sz - length out) (contents cb)"
        by (simp only: drop_drop e)
      have st: "(sz \<le> length out + ?n + (?a - ?n)) = (sz \<le> length out + ?a)"
        by auto
      have "read_loop cb sz out = read_loop ?cb1 sz (out @ copy_out cb ?n)"
        using more False by (subst read_loop.simps) (simp add: Let_def)
      then show ?thesis
        using r inv' c' cl t d st
        by (simp add: lo ch(4) ch(2) contents_length len)
    qed
  qed
qed

lemma write_loop_spec:
  assumes "chan_inv k cb" "written \<le> length data"
  shows "\<exists>cb'. write_loop cb data written =
           (cb',
            written + (if closed cb then 0 else min (unat (availableWrite cb)) (length data - written)),
            if closed cb \<or> length data \<le> written + unat (availableWrite cb) then Returned else Waiting)
         \<and> chan_inv k cb'
         \<and> contents cb' = contents cb @
              take (if closed cb then 0 else min (unat (availableWrite cb)) (length data - written))
                (drop written data)
         \<and> closed cb' = closed cb"
  using assms
proof (induction cb data written rule: write_loop.induct)
  case (1 cb data written)
  let ?a = "unat (availableWrite cb)"
  let ?n = "min ?a (length data - written)"
  let ?cb1 = "cb\<lparr>buffer := copy_in cb data written ?n,
                   writePos := (writePos cb + of_nat ?n) AND bufferMask cb\<rparr>"
  note inv = "1.prems"(1) and wl = "1.prems"(2)
  show ?case
  proof (cases "written < length data \<and> \<not> closed cb")
    case False
    then show ?thesis using inv wl by (subst write_loop.simps) auto
  next
    case more: True
    show ?thesis
    proof (cases "availableWrite cb = 0")
      case True
      then show ?thesis using inv more
        by (subst write_loop.simps) simp
    next
      case False
      have n: "?n \<le> ?a" by simp
      have dn: "written + ?n \<le> length data" using wl by simp
      note ch = write_chunk [OF inv n dn]
      have cl1: "closed ?cb1 = closed cb" by simp
      have a1: "unat (availableWrite ?cb1) = ?a - ?n"
        using availableWrite_unat [OF ch(1)] availableWrite_unat [OF inv] ch(2) by simp
      have m1: "min (?a - ?n) (length data - (written + ?n)) = 0"
        by auto
      from "1.IH" [OF more refl False refl ch(1) dn]
      obtain cb' where
        r: "write_loop ?cb1 data (written + ?n) =
             (cb', written + ?n +
               (if closed ?cb1 then 0
                else min (unat (availableWrite ?cb1)) (length data - (written + ?n))),
              if closed ?cb1 \<or> length data \<le> written + ?n + unat (availableWrite ?cb1)
              then Returned else Waiting)"
        and inv': "chan_inv k cb'"
        and c': "contents cb' = contents ?cb1 @
              take (if closed ?cb1 then 0
                else min (unat (availableWrite ?cb1)) (length data - (written + ?n)))
                (drop (written + ?n) data)"
        and cl: "closed cb' = closed ?cb1"
        by blast
      have st: "(length data \<le> written + ?n + (?a - ?n)) = (length data \<le> written + ?a)"
        by auto
      have "write_loop cb data written = write_loop ?cb1 data (written + ?n)"
        using more False by (subst write_loop.simps) (simp add: Let_def)
      then show ?thesis
        using r inv' c' cl more st
        by (simp only: cl1 a1 m1 ch(3)) simp
    qed
  qed
qed

section \<open>The two threads\<close>

lemma write_section_inv:
  assumes inv: "pipe_inv k p" and wl: "written \<le> length data"
    and acc: "writer_accepted (writer p) = take written data"
    and res: "r = write_loop (chan p) data written \<or> (closed (chan p) \<and> r = (chan p, written, Returned))"
  shows "pipe_inv k (writer_section p data r)"
proof -
  from inv have ci: "chan_inv k (chan p)"
    and fifo: "returned_by_read p @ reader_taken (reader p) @ contents (chan p)
                = accepted_by_write p @ take written data"
    and op: "closed (chan p) \<or> accepted_by_write p = passed_to_write p"
    by (simp_all add: pipe_inv_def acc)
  let ?m = "if closed (chan p) then 0
            else min (unat (availableWrite (chan p))) (length data - written)"
  let ?st = "if closed (chan p) \<or> length data \<le> written + unat (availableWrite (chan p))
             then Returned else Waiting"
  from write_loop_spec [OF ci wl] obtain cb' where
    wlp: "write_loop (chan p) data written = (cb', written + ?m, ?st)"
    and ci': "chan_inv k cb'"
    and c': "contents cb' = contents (chan p) @ take ?m (drop written data)"
    and cl': "closed cb' = closed (chan p)"
    by blast
  have tk: "take written data @ take ?m (drop written data) = take (written + ?m) data"
    by (simp only: take_add)
  show ?thesis
  proof (cases "closed (chan p)")
    case True
    then have r: "r = (chan p, written, Returned)"
      using res wlp c' by (auto simp: write_loop.simps)
    show ?thesis
      using inv True
      by (simp add: r pipe_inv_def acc accepted_by_write_def passed_to_write_def
          returned_by_read_def)
  next
    case False
    then have r: "r = (cb', written + ?m, ?st)" using res wlp by simp
    show ?thesis
    proof (cases "length data \<le> written + unat (availableWrite (chan p))")
      case True
      then have m: "written + ?m = length data" using False wl by simp
      have "returned_by_read p @ reader_taken (reader p) @ contents cb'
            = accepted_by_write p @ take (written + ?m) data"
        using fifo c' tk by (metis append.assoc)
      then show ?thesis
        using False True ci' cl' op m
        by (simp add: r pipe_inv_def accepted_by_write_def passed_to_write_def
            returned_by_read_def)
    next
      case nf: False
      have "returned_by_read p @ reader_taken (reader p) @ contents cb'
            = accepted_by_write p @ take (written + ?m) data"
        using fifo c' tk by (metis append.assoc)
      then show ?thesis
        using False nf ci' cl' op wl
        by (simp add: r pipe_inv_def accepted_by_write_def passed_to_write_def
            returned_by_read_def)
    qed
  qed
qed

lemma read_section_inv:
  assumes inv: "pipe_inv k p"
    and tk: "reader_taken (reader p) = out"
    and res: "r = read_loop (chan p) sz out \<or> (closed (chan p) \<and> r = (chan p, out, Returned))"
  shows "pipe_inv k (reader_section p sz r)"
proof -
  from inv have ci: "chan_inv k (chan p)"
    and fifo: "returned_by_read p @ out @ contents (chan p)
                = accepted_by_write p @ writer_accepted (writer p)"
    by (simp_all add: pipe_inv_def tk)
  let ?st = "if sz \<le> length out + length (contents (chan p)) \<or> closed (chan p)
             then Returned else Waiting"
  from read_loop_spec [OF ci] obtain cb' where
    rl: "read_loop (chan p) sz out = (cb', out @ take (sz - length out) (contents (chan p)), ?st)"
    and ci': "chan_inv k cb'"
    and c': "contents cb' = drop (sz - length out) (contents (chan p))"
    and cl': "closed cb' = closed (chan p)"
    by blast
  have split: "take (sz - length out) (contents (chan p)) @ contents cb' = contents (chan p)"
    by (simp add: c')
  have fifo': "returned_by_read p @ (out @ take (sz - length out) (contents (chan p))) @ contents cb'
      = accepted_by_write p @ writer_accepted (writer p)"
    using fifo split by simp
  from res show ?thesis
  proof
    assume "r = read_loop (chan p) sz out"
    then have r: "r = (cb', out @ take (sz - length out) (contents (chan p)), ?st)"
      using rl by simp
    show ?thesis
    proof (cases "sz \<le> length out + length (contents (chan p)) \<or> closed (chan p)")
      case True
      then show ?thesis
        using inv ci' cl' fifo'
        by (simp add: r pipe_inv_def returned_by_read_def accepted_by_write_def
            passed_to_write_def)
    next
      case False
      then show ?thesis
        using inv ci' cl' fifo'
        by (simp add: r pipe_inv_def returned_by_read_def accepted_by_write_def
            passed_to_write_def)
    qed
  next
    assume "closed (chan p) \<and> r = (chan p, out, Returned)"
    then show ?thesis
      using inv fifo
      by (simp add: pipe_inv_def returned_by_read_def accepted_by_write_def
          passed_to_write_def)
  qed
qed

lemma step_inv:
  assumes "pipe_inv k p" "step e p = Some p'"
  shows "pipe_inv k p'"
proof (cases e)
  case (Write data)
  with assms(2) have w: "writer p = WriterIdle"
    and p': "p' = writer_section p data (CircularBuffer_write (chan p) data)"
    by (auto split: writer_state.splits)
  show ?thesis unfolding p'
    by (rule write_section_inv [OF assms(1), where written = 0])
      (auto simp: w CircularBuffer_write_def)
next
  case WriterWakes
  with assms(2) obtain data written where w: "writer p = WriterWaiting data written"
    and p': "p' = writer_section p data (write_wake (chan p) data written)"
    by (auto split: writer_state.splits)
  have "written \<le> length data" using assms(1) w by (simp add: pipe_inv_def)
  then show ?thesis unfolding p'
    by (rule write_section_inv [OF assms(1)]) (auto simp: w write_wake_def)
next
  case (Read sz)
  with assms(2) have r: "reader p = ReaderIdle"
    and p': "p' = reader_section p sz (CircularBuffer_read (chan p) sz)"
    by (auto split: reader_state.splits)
  show ?thesis unfolding p'
    by (rule read_section_inv [OF assms(1), where out = "[]"])
      (auto simp: r CircularBuffer_read_def)
next
  case ReaderWakes
  with assms(2) obtain sz out where r: "reader p = ReaderWaiting sz out"
    and p': "p' = reader_section p sz (read_wake (chan p) sz out)"
    by (auto split: reader_state.splits)
  show ?thesis unfolding p'
    by (rule read_section_inv [OF assms(1), where out = out]) (auto simp: r read_wake_def)
next
  case Close
  with assms(2) have p': "p' = p\<lparr>chan := CircularBuffer_close (chan p)\<rparr>" by simp
  have "contents (CircularBuffer_close (chan p)) = contents (chan p)"
    by (simp add: CircularBuffer_close_def contents_def copy_out_def availableRead_def)
  moreover have "chan_inv k (CircularBuffer_close (chan p))"
    using assms(1) by (simp add: pipe_inv_def chan_inv_def CircularBuffer_close_def)
  ultimately show ?thesis
    using assms(1)
    by (simp add: p' pipe_inv_def returned_by_read_def accepted_by_write_def
        passed_to_write_def CircularBuffer_close_def)
qed

lemma run_inv:
  assumes "pipe_inv k p" "run es p = Some p'"
  shows "pipe_inv k p'"
  using assms
proof (induction es arbitrary: p)
  case Nil
  then show ?case by simp
next
  case (Cons e es)
  then show ?case
    by (auto split: option.splits dest: step_inv)
qed

lemma ctor_Inr:
  assumes "CircularBuffer_ctor max_size allocates sz = Inr cb"
  shows "cb = \<lparr>buffer = replicate (unat sz) 0, readPos = 0, writePos = 0,
               bufferSize = sz, bufferMask = sz - 1, closed = False\<rparr>"
  using assms by (auto simp: CircularBuffer_ctor_def split: if_splits)

lemma ctor_pow2:
  assumes "k < 64" "CircularBuffer_ctor max_size allocates (2 ^ k) = Inr cb"
  shows "cb = \<lparr>buffer = replicate (2 ^ k) 0, readPos = 0, writePos = 0,
               bufferSize = 2 ^ k, bufferMask = 2 ^ k - 1, closed = False\<rparr>"
  using ctor_Inr [OF assms(2)] assms(1) by (simp add: pow2_unat)

lemma ctor_inv:
  assumes "k < 64" "CircularBuffer_ctor max_size allocates (2 ^ k) = Inr cb"
  shows "pipe_inv k (new_pipe cb)"
proof -
  have cb: "cb = \<lparr>buffer = replicate (2 ^ k) 0, readPos = 0, writePos = 0,
                bufferSize = 2 ^ k, bufferMask = 2 ^ k - 1, closed = False\<rparr>"
    using assms by (rule ctor_pow2)
  have "chan_inv k cb" using assms(1) by (simp add: cb chan_inv_def)
  moreover have "contents cb = []"
    by (simp add: cb contents_def copy_out_def availableRead_def)
  ultimately show ?thesis
    by (simp add: pipe_inv_def new_pipe_def returned_by_read_def accepted_by_write_def
        passed_to_write_def)
qed

lemma step_closed:
  assumes "pipe_inv k p" "step e p = Some p'" "e \<noteq> Close"
  shows "closed (chan p') = closed (chan p)"
proof -
  from assms(1) have ci: "chan_inv k (chan p)" by (simp add: pipe_inv_def)
  have w: "\<And>data written. written \<le> length data \<Longrightarrow>
      closed (fst (write_loop (chan p) data written)) = closed (chan p)"
    using write_loop_spec [OF ci] by (metis fst_conv)
  have r: "\<And>sz out. closed (fst (read_loop (chan p) sz out)) = closed (chan p)"
    using read_loop_spec [OF ci] by (metis fst_conv)
  have ws: "chan (writer_section p data x) = fst x" for data x
    by (cases "(p, data, x)" rule: writer_section.cases) simp_all
  have rs: "chan (reader_section p sz x) = fst x" for sz x
    by (cases "(p, sz, x)" rule: reader_section.cases) simp_all
  show ?thesis
  proof (cases e)
    case (Write data)
    with assms(2) have "p' = writer_section p data (CircularBuffer_write (chan p) data)"
      by (auto split: writer_state.splits)
    then show ?thesis using w [of 0 data]
      by (simp add: ws CircularBuffer_write_def)
  next
    case WriterWakes
    with assms(2) obtain data written where wt: "writer p = WriterWaiting data written"
      and p': "p' = writer_section p data (write_wake (chan p) data written)"
      by (auto split: writer_state.splits)
    have "written \<le> length data" using assms(1) wt by (simp add: pipe_inv_def)
    then show ?thesis using w [of written data]
      by (simp add: p' ws write_wake_def)
  next
    case (Read sz)
    with assms(2) have "p' = reader_section p sz (CircularBuffer_read (chan p) sz)"
      by (auto split: reader_state.splits)
    then show ?thesis using r
      by (simp add: rs CircularBuffer_read_def)
  next
    case ReaderWakes
    with assms(2) obtain sz out where
      p': "p' = reader_section p sz (read_wake (chan p) sz out)"
      by (auto split: reader_state.splits)
    then show ?thesis using r
      by (simp add: rs read_wake_def)
  next
    case Close
    then show ?thesis using assms(3) by simp
  qed
qed

lemma run_open:
  assumes "pipe_inv k p" "run es p = Some p'" "Close \<notin> set es"
  shows "closed (chan p') = closed (chan p)"
  using assms
proof (induction es arbitrary: p)
  case Nil
  then show ?case by simp
next
  case (Cons e es)
  from Cons.prems(2) obtain q where q: "step e p = Some q" and rq: "run es q = Some p'"
    by (auto split: option.splits)
  have "pipe_inv k q" using Cons.prems(1) q by (rule step_inv)
  moreover have "closed (chan q) = closed (chan p)"
    using Cons.prems(1,3) q by (intro step_closed) auto
  ultimately show ?case
    using Cons.IH [OF _ rq] Cons.prems(3) by simp
qed


text \<open>
  C1. A channel built with a power-of-two capacity, a writer thread and a reader thread
  running their calls in any interleaving (\<open>es\<close> is any sequence of atomic sections the
  code can run): the samples returned by \<open>read\<close>, then those a parked reader has already
  taken, then those still buffered, are exactly the samples \<open>write\<close> has taken, in
  order. If the channel was never closed, every \<open>write\<close> that returned took all the
  samples passed to it, so once both threads are outside the channel and nothing is left
  buffered, the concatenation of all samples returned by \<open>read\<close> equals the
  concatenation of all samples passed to \<open>write\<close>. The claim's condition that the
  buffered samples never exceed the capacity holds in every run (see C2): the writer waits
  instead.
\<close>

theorem fifo_round_trip:
  assumes "k < 64" and "CircularBuffer_ctor max_size allocates (2 ^ k) = Inr cb"
    and "run es (new_pipe cb) = Some p"
  shows "returned_by_read p @ reader_taken (reader p) @ contents (chan p)
           = accepted_by_write p @ writer_accepted (writer p)
       \<and> (Close \<notin> set es \<longrightarrow> accepted_by_write p = passed_to_write p)
       \<and> (Close \<notin> set es \<and> writer p = WriterIdle \<and> reader p = ReaderIdle
            \<and> availableRead (chan p) = 0
          \<longrightarrow> returned_by_read p = passed_to_write p)"
proof -
  have i0: "pipe_inv k (new_pipe cb)"
    using assms(1,2) by (rule ctor_inv)
  then have inv: "pipe_inv k p"
    using assms(3) by (rule run_inv)
  then have fifo: "returned_by_read p @ reader_taken (reader p) @ contents (chan p)
           = accepted_by_write p @ writer_accepted (writer p)"
    by (simp add: pipe_inv_def)
  have "\<not> closed (chan (new_pipe cb))"
    using ctor_pow2 [OF assms(1,2)] by (simp add: new_pipe_def)
  then have op: "Close \<notin> set es \<Longrightarrow> accepted_by_write p = passed_to_write p"
    using run_open [OF i0 assms(3)] inv by (simp add: pipe_inv_def)
  have "availableRead (chan p) = 0 \<Longrightarrow> contents (chan p) = []"
    using contents_length [of "chan p"] by simp
  then show ?thesis
    using fifo op by auto
qed

theorem fifo_round_trip_witness:
  "\<exists>p. run [Write [1, 2, 3, 4, 5, 6, 7, 8, 9, 10], Read 4, WriterWakes, Read 4, Read 2]
          (new_pipe \<lparr>buffer = replicate 8 0, readPos = 0, writePos = 0,
                     bufferSize = 8, bufferMask = 7, closed = False\<rparr>) = Some p
     \<and> writer p = WriterIdle \<and> reader p = ReaderIdle \<and> availableRead (chan p) = 0
     \<and> returned_by_read p = passed_to_write p
     \<and> passed_to_write p = [1, 2, 3, 4, 5, 6, 7, 8, 9, 10]"
proof -
  let ?cb = "\<lparr>buffer = replicate 8 0, readPos = 0, writePos = 0,
              bufferSize = 8, bufferMask = 7, closed = False\<rparr>"
  let ?es = "[Write [1, 2, 3, 4, 5, 6, 7, 8, 9, 10], Read 4, WriterWakes, Read 4, Read 2]"
  let ?p = "\<lparr>chan = \<lparr>buffer = [9, 10, 3, 4, 5, 6, 7, 8], readPos = 2, writePos = 2,
                     bufferSize = 8, bufferMask = 7, closed = False\<rparr>,
             writer = WriterIdle, reader = ReaderIdle,
             writes = [([1, 2, 3, 4, 5, 6, 7, 8, 9, 10], 10)],
             reads = [(4, [1, 2, 3, 4]), (4, [5, 6, 7, 8]), (2, [9, 10])]\<rparr>"
  have k: "(3::nat) < 64" by simp
  have c: "CircularBuffer_ctor 4611686018427387903 (\<lambda>n. n \<le> 1048576) (2 ^ 3) = Inr ?cb"
    by (simp add: CircularBuffer_ctor_def)
  have r: "run ?es (new_pipe ?cb) = Some ?p"
    by code_simp
  have n: "Close \<notin> set ?es" by simp
  have d: "writer ?p = WriterIdle" "reader ?p = ReaderIdle" "availableRead (chan ?p) = 0"
    by (simp_all add: availableRead_def)
  have "returned_by_read ?p = passed_to_write ?p"
    using fifo_round_trip [OF k c r] n d by blast
  moreover have "passed_to_write ?p = [1, 2, 3, 4, 5, 6, 7, 8, 9, 10]"
    by (simp add: passed_to_write_def)
  ultimately show ?thesis
    using r d by blast
qed

lemma write_call_bound:
  assumes ci: "chan_inv k c"
  shows "\<exists>cb' n st. CircularBuffer_write c data = (cb', n, st)
            \<and> n \<le> 2 ^ k - 1 - length (contents c)
            \<and> contents cb' = contents c @ take n data
            \<and> length (contents cb') \<le> 2 ^ k - 1
            \<and> (st = Waiting \<longrightarrow> n < length data \<and> availableWrite cb' = 0)"
proof (cases "closed c")
  case True
  have "length (contents c) \<le> 2 ^ k - 1"
    using availableRead_less [OF ci] by (simp add: contents_length)
  then show ?thesis using True
    by (simp add: CircularBuffer_write_def)
next
  case False
  let ?aw = "unat (availableWrite c)"
  let ?m = "min ?aw (length data)"
  from write_loop_spec [OF ci, of 0 data] False obtain cb' where
    wl: "write_loop c data 0 = (cb', ?m, if length data \<le> ?aw then Returned else Waiting)"
    and ci': "chan_inv k cb'"
    and c': "contents cb' = contents c @ take ?m data"
    by auto
  have aw: "?aw = 2 ^ k - 1 - length (contents c)"
    using availableWrite_unat [OF ci] by (simp add: contents_length)
  have al: "length (contents c) < 2 ^ k"
    using availableRead_less [OF ci] by (simp add: contents_length)
  have len': "length (contents cb') = length (contents c) + ?m"
    using c' by simp
  have le': "length (contents cb') \<le> 2 ^ k - 1"
    using len' aw al by simp
  have "availableWrite cb' = 0" if "\<not> length data \<le> ?aw"
  proof -
    from that have "?m = ?aw" by simp
    then have "length (contents cb') = 2 ^ k - 1"
      using len' aw al by simp
    then have "unat (availableWrite cb') = 0"
      using availableWrite_unat [OF ci'] by (simp add: contents_length)
    then show ?thesis by (simp add: unat_eq_0)
  qed
  then show ?thesis
    using False wl c' le' aw
    by (auto simp: CircularBuffer_write_def)
qed


text \<open>
  C2. In every state a channel of capacity \<open>N = 2 ^ k\<close> can reach, whatever the two
  threads and \<open>close()\<close> have done, the writable space is \<open>N - 1\<close> minus the number of
  readable samples, with no wrap-around, and the readable samples are the buffered ones, at
  most \<open>N - 1\<close>. One pass of \<open>write\<close> takes at most the writable space, appends what
  it takes behind the unread samples without touching them, never leaves more than
  \<open>N - 1\<close> samples buffered, and when it has to wait the channel is full
  (\<open>availableWrite\<close> is 0). On a new channel a \<open>write\<close> of \<open>N\<close> or more samples
  takes exactly \<open>N - 1\<close> and waits.
\<close>

theorem reserved_slot:
  assumes "k < 64" and "CircularBuffer_ctor max_size allocates (2 ^ k) = Inr cb"
    and "run es (new_pipe cb) = Some p"
  shows "unat (bufferSize (chan p)) = 2 ^ k
       \<and> unat (availableWrite (chan p))
           = unat (bufferSize (chan p)) - 1 - unat (availableRead (chan p))
       \<and> unat (availableRead (chan p)) = length (contents (chan p))
       \<and> length (contents (chan p)) \<le> 2 ^ k - 1
       \<and> (\<forall>data. \<exists>cb' n st. CircularBuffer_write (chan p) data = (cb', n, st)
            \<and> n \<le> 2 ^ k - 1 - length (contents (chan p))
            \<and> contents cb' = contents (chan p) @ take n data
            \<and> length (contents cb') \<le> 2 ^ k - 1
            \<and> (st = Waiting \<longrightarrow> n < length data \<and> availableWrite cb' = 0))
       \<and> (\<forall>data. 2 ^ k \<le> length data \<longrightarrow>
            (\<exists>cb'. CircularBuffer_write cb data = (cb', 2 ^ k - 1, Waiting)))"
proof -
  have i0: "pipe_inv k (new_pipe cb)"
    using assms(1,2) by (rule ctor_inv)
  then have "pipe_inv k p"
    using assms(3) by (rule run_inv)
  then have ci: "chan_inv k (chan p)"
    by (simp add: pipe_inv_def)
  have ci0: "chan_inv k cb"
    using i0 by (simp add: pipe_inv_def new_pipe_def)
  have cb: "cb = \<lparr>buffer = replicate (2 ^ k) 0, readPos = 0, writePos = 0,
                bufferSize = 2 ^ k, bufferMask = 2 ^ k - 1, closed = False\<rparr>"
    using assms(1,2) by (rule ctor_pow2)
  have sz: "unat (bufferSize (chan p)) = 2 ^ k"
    using ci assms(1) by (simp add: chan_inv_def pow2_unat)
  have aw: "unat (availableWrite (chan p))
           = unat (bufferSize (chan p)) - 1 - unat (availableRead (chan p))"
    using availableWrite_unat [OF ci] sz by simp
  have le: "length (contents (chan p)) \<le> 2 ^ k - 1"
    using availableRead_less [OF ci] by (simp add: contents_length)
  have fresh: "\<exists>cb'. CircularBuffer_write cb data = (cb', 2 ^ k - 1, Waiting)"
    if "2 ^ k \<le> length data" for data
  proof -
    have a0: "availableRead cb = 0" by (simp add: cb availableRead_def)
    then have "unat (availableWrite cb) = 2 ^ k - 1"
      using availableWrite_unat [OF ci0] by simp
    moreover have "\<not> closed cb" by (simp add: cb)
    moreover have "\<not> length data \<le> 2 ^ k - 1"
      using that by (simp add: not_le less_le_trans [of _ "2 ^ k"])
    ultimately show ?thesis
      using write_loop_spec [OF ci0, of 0 data]
      by (auto simp: CircularBuffer_write_def)
  qed
  show ?thesis
    using sz aw le write_call_bound [OF ci] fresh
    by (simp add: contents_length)
qed

theorem reserved_slot_witness:
  "\<exists>p cb'. run [Write [1, 2, 3, 4, 5], Read 2]
          (new_pipe \<lparr>buffer = replicate 8 0, readPos = 0, writePos = 0,
                     bufferSize = 8, bufferMask = 7, closed = False\<rparr>) = Some p
     \<and> unat (availableRead (chan p)) = 3 \<and> unat (availableWrite (chan p)) = 4
     \<and> CircularBuffer_write (chan p) [6, 7, 8, 9, 10] = (cb', 4, Waiting)
     \<and> contents cb' = [3, 4, 5, 6, 7, 8, 9]
     \<and> availableWrite cb' = 0"
proof -
  let ?cb = "\<lparr>buffer = replicate 8 0, readPos = 0, writePos = 0,
              bufferSize = 8, bufferMask = 7, closed = False\<rparr>"
  let ?es = "[Write [1, 2, 3, 4, 5], Read 2]"
  let ?c = "\<lparr>buffer = [1, 2, 3, 4, 5, 0, 0, 0], readPos = 2, writePos = 5,
                     bufferSize = 8, bufferMask = 7, closed = False\<rparr>"
  let ?p = "\<lparr>chan = ?c, writer = WriterIdle, reader = ReaderIdle,
             writes = [([1, 2, 3, 4, 5], 5)], reads = [(2, [1, 2])]\<rparr>"
  let ?c' = "\<lparr>buffer = [9, 2, 3, 4, 5, 6, 7, 8], readPos = 2, writePos = 1,
                     bufferSize = 8, bufferMask = 7, closed = False\<rparr>"
  have k: "(3::nat) < 64" by simp
  have c: "CircularBuffer_ctor 4611686018427387903 (\<lambda>n. n \<le> 1048576) (2 ^ 3) = Inr ?cb"
    by (simp add: CircularBuffer_ctor_def)
  have r: "run ?es (new_pipe ?cb) = Some ?p"
    by code_simp
  have w: "CircularBuffer_write ?c [6, 7, 8, 9, 10] = (?c', 4, Waiting)"
    by code_simp
  have cont: "contents ?c = [3, 4, 5]"
    by code_simp
  note t = reserved_slot [OF k c r]
  from t have "unat (availableRead (chan ?p)) = length (contents (chan ?p))"
    by blast
  then have ar: "unat (availableRead (chan ?p)) = 3"
    using cont by simp
  from t have "unat (availableWrite (chan ?p))
           = unat (bufferSize (chan ?p)) - 1 - unat (availableRead (chan ?p))"
    by blast
  then have aw: "unat (availableWrite (chan ?p)) = 4"
    using ar by simp
  from t have "\<exists>cb' n st. CircularBuffer_write (chan ?p) [6, 7, 8, 9, 10] = (cb', n, st)
            \<and> n \<le> 2 ^ 3 - 1 - length (contents (chan ?p))
            \<and> contents cb' = contents (chan ?p) @ take n [6, 7, 8, 9, 10]
            \<and> length (contents cb') \<le> 2 ^ 3 - 1
            \<and> (st = Waiting \<longrightarrow> n < length [6, 7, 8, 9, 10 :: int16_t] \<and> availableWrite cb' = 0)"
    by blast
  then have "contents ?c' = [3, 4, 5, 6, 7, 8, 9] \<and> availableWrite ?c' = 0"
    using w cont by simp
  then show ?thesis
    using r ar aw w by (intro exI [of _ ?p] exI [of _ ?c']) simp
qed

section \<open>After \<open>close()\<close>\<close>

lemma step_keeps_closed:
  assumes "pipe_inv k p" "step e p = Some p'" "closed (chan p)"
  shows "closed (chan p')"
proof (cases "e = Close")
  case True
  then show ?thesis using assms(2) by (auto simp: CircularBuffer_close_def)
next
  case False
  then show ?thesis using step_closed [OF assms(1,2)] assms(3) by simp
qed

lemma read_closed:
  assumes "chan_inv k cb" "closed cb"
  shows "\<exists>cb'. CircularBuffer_read cb sz = (cb', take sz (contents cb), Returned)
          \<and> contents cb' = drop sz (contents cb) \<and> closed cb' \<and> chan_inv k cb'"
  using read_loop_spec [OF assms(1), of sz "[]"] assms(2)
  by (auto simp: CircularBuffer_read_def)


text \<open>
  C3, as the code has it. On a closed channel of power-of-two capacity, \<open>write\<close> returns 0
  at once and leaves the channel as it is, which is less than the requested count whenever
  samples were passed; \<open>read\<close> returns at once with the buffered samples, oldest first,
  up to the requested count, leaves the rest buffered and the channel closed, so a drained
  channel gives 0. With 200 samples buffered, a \<open>read\<close> of 1000 returns exactly those 200
  and the next \<open>read\<close> of 1000 returns none. \<open>close()\<close> on a closed channel changes
  nothing, \<open>close()\<close> always leaves the flag set, and no atomic section of either thread
  clears it.
\<close>

theorem after_close:
  assumes "chan_inv k cb" and "closed cb"
  shows "(\<forall>data. CircularBuffer_write cb data = (cb, 0, Returned))
       \<and> (\<forall>sz. \<exists>cb'. CircularBuffer_read cb sz = (cb', take sz (contents cb), Returned)
              \<and> contents cb' = drop sz (contents cb) \<and> closed cb' \<and> chan_inv k cb')
       \<and> (length (contents cb) = 200 \<longrightarrow>
            (\<exists>cb' cb'' out. CircularBuffer_read cb 1000 = (cb', out, Returned) \<and> length out = 200
               \<and> out = contents cb
               \<and> CircularBuffer_read cb' 1000 = (cb'', [], Returned)))
       \<and> CircularBuffer_close cb = cb
       \<and> (\<forall>c. closed (CircularBuffer_close c)
              \<and> CircularBuffer_close (CircularBuffer_close c) = CircularBuffer_close c)
       \<and> (\<forall>e p p'. pipe_inv k p \<and> closed (chan p) \<and> step e p = Some p' \<longrightarrow> closed (chan p'))"
proof -
  have w: "\<forall>data. CircularBuffer_write cb data = (cb, 0, Returned)"
    using assms(2) by (simp add: CircularBuffer_write_def)
  have r: "\<forall>sz. \<exists>cb'. CircularBuffer_read cb sz = (cb', take sz (contents cb), Returned)
              \<and> contents cb' = drop sz (contents cb) \<and> closed cb' \<and> chan_inv k cb'"
    using read_closed [OF assms] by blast
  have s: "\<exists>cb' cb'' out. CircularBuffer_read cb 1000 = (cb', out, Returned) \<and> length out = 200
               \<and> out = contents cb
               \<and> CircularBuffer_read cb' 1000 = (cb'', [], Returned)"
    if len: "length (contents cb) = 200"
  proof -
    from read_closed [OF assms, of 1000] obtain cb' where
      1: "CircularBuffer_read cb 1000 = (cb', take 1000 (contents cb), Returned)"
      and 2: "contents cb' = drop 1000 (contents cb)" and 3: "closed cb'" and 4: "chan_inv k cb'"
      by blast
    from read_closed [OF 4 3, of 1000] obtain cb'' where
      5: "CircularBuffer_read cb' 1000 = (cb'', take 1000 (contents cb'), Returned)"
      by blast
    show ?thesis using 1 2 5 len by simp
  qed
  have i: "CircularBuffer_close cb = cb"
    using assms(2) by (simp add: CircularBuffer_close_def)
  have c: "\<forall>c. closed (CircularBuffer_close c)
              \<and> CircularBuffer_close (CircularBuffer_close c) = CircularBuffer_close c"
    by (simp add: CircularBuffer_close_def)
  have m: "\<forall>e p p'. pipe_inv k p \<and> closed (chan p) \<and> step e p = Some p' \<longrightarrow> closed (chan p')"
    using step_keeps_closed by blast
  show ?thesis
    using w r s i c m by blast
qed


theorem after_close_witness:
  "\<exists>p cb' cb'' out.
     run [Write (map of_nat [1..<201]), Close]
       (new_pipe \<lparr>buffer = replicate 256 0, readPos = 0, writePos = 0,
                  bufferSize = 256, bufferMask = 255, closed = False\<rparr>) = Some p
     \<and> closed (chan p) \<and> length (contents (chan p)) = 200
     \<and> CircularBuffer_read (chan p) 1000 = (cb', out, Returned) \<and> length out = 200
     \<and> CircularBuffer_read cb' 1000 = (cb'', [], Returned)
     \<and> CircularBuffer_write (chan p) [1, 2, 3] = (chan p, 0, Returned)"
proof -
  let ?d = "map of_nat [1..<201] :: int16_t list"
  let ?c = "\<lparr>buffer = ?d @ replicate 56 0, readPos = 0, writePos = 200,
             bufferSize = 256, bufferMask = 255, closed = True\<rparr>"
  let ?p = "\<lparr>chan = ?c, writer = WriterIdle, reader = ReaderIdle,
             writes = [(?d, 200)], reads = []\<rparr>"
  have r: "run [Write ?d, Close]
       (new_pipe \<lparr>buffer = replicate 256 0, readPos = 0, writePos = 0,
                  bufferSize = 256, bufferMask = 255, closed = False\<rparr>) = Some ?p"
    by code_simp
  have ci: "chan_inv 8 ?c"
    by (simp add: chan_inv_def)
  have cl: "closed ?c"
    by simp
  have len: "length (contents ?c) = 200"
    by (simp add: contents_length availableRead_def)
  note t = after_close [OF ci cl]
  from t len obtain cb' cb'' out where
    "CircularBuffer_read ?c 1000 = (cb', out, Returned)" "length out = 200"
    "CircularBuffer_read cb' 1000 = (cb'', [], Returned)"
    by blast
  moreover from t have "CircularBuffer_write ?c [1, 2, 3] = (?c, 0, Returned)"
    by blast
  ultimately show ?thesis
    using r len by (intro exI [of _ ?p] exI [of _ cb'] exI [of _ cb''] exI [of _ out]) simp
qed

text \<open>
  C3 as stated fails for a \<open>write\<close> of no samples: on a closed channel it returns 0,
  which is not less than the requested count 0.
\<close>

theorem write_after_close_counterexample:
  "closed (CircularBuffer_close \<lparr>buffer = replicate 8 0, readPos = 0, writePos = 0,
                              bufferSize = 8, bufferMask = 7, closed = False\<rparr>)
   \<and> CircularBuffer_write
        (CircularBuffer_close \<lparr>buffer = replicate 8 0, readPos = 0, writePos = 0,
                              bufferSize = 8, bufferMask = 7, closed = False\<rparr>) []
      = (CircularBuffer_close \<lparr>buffer = replicate 8 0, readPos = 0, writePos = 0,
                              bufferSize = 8, bufferMask = 7, closed = False\<rparr>, 0, Returned)
   \<and> \<not> (0 :: nat) < length ([] :: int16_t list)"
  by (simp add: CircularBuffer_close_def CircularBuffer_write_def)

section \<open>Reporting an error\<close>

text \<open>
  Called on its own with the mutex free, \<open>recoverFromError\<close> returns: true for an xrun or
  a suspend, with the state left at \<open>STATE_RECOVERY\<close>, false otherwise, with the state
  back at \<open>STATE_ERROR\<close>. Called while the mutex is locked it never returns.
\<close>

lemma recoverFromError_alone:
  assumes "\<not> errorMutex eh"
  shows "recoverFromError eh =
     Done (lastError eh = ERROR_ALSA_XRUN \<or> lastError eh = ERROR_ALSA_SUSPEND,
           if lastError eh = ERROR_ALSA_XRUN \<or> lastError eh = ERROR_ALSA_SUSPEND
           then eh\<lparr>globalState := STATE_RECOVERY,
                   logger := logger eh @ [(LOG_INFO, ''Global state changed to: 3'')]\<rparr>
           else eh\<lparr>globalState := STATE_ERROR,
                   logger := logger eh @ [(LOG_INFO, ''Global state changed to: 3''),
                                          (LOG_INFO, ''Global state changed to: 2'')]\<rparr>)"
  using assms
  by (cases "lastError eh")
    (simp_all add: recoverFromError_def lock_guard_def unlock_def setGlobalState_def log_def)

lemma reportError_deadlock:
  assumes "\<not> errorMutex eh"
  shows "reportError eh err details =
     Deadlock (eh\<lparr>globalState := STATE_ERROR, lastError := err, errorMutex := True,
                  logger := logger eh @ [(LOG_ERR, error_prefix err @ details),
                                         (LOG_INFO, ''Global state changed to: 2'')]\<rparr>)"
  using assms
  by (simp add: reportError_def lock_guard_def recoverFromError_def setGlobalState_def log_def)

lemma recoverFromError_locked:
  assumes "errorMutex eh"
  shows "recoverFromError eh = Deadlock eh"
  using assms by (simp add: recoverFromError_def lock_guard_def)


text \<open>
  C4, what the code does for every error kind and every details string: \<open>reportError\<close>
  locks \<open>errorMutex\<close>, stores the kind in \<open>lastError\<close>, logs the error, sets the global
  state to \<open>STATE_ERROR\<close> and calls \<open>recoverFromError\<close>, whose own lock guard waits for
  the mutex that \<open>reportError\<close> is still holding. The call never returns, whatever the
  kind: the state stays \<open>STATE_ERROR\<close>, \<open>STATE_RECOVERY\<close> and \<open>STATE_RUNNING\<close> are never
  set, and the mutex stays locked.
\<close>

theorem reportError_never_returns:
  assumes "\<not> errorMutex eh"
  shows "reportError eh err details =
     Deadlock (eh\<lparr>globalState := STATE_ERROR, lastError := err, errorMutex := True,
                  logger := logger eh @ [(LOG_ERR, error_prefix err @ details),
                                         (LOG_INFO, ''Global state changed to: 2'')]\<rparr>)"
  using assms by (rule reportError_deadlock)

theorem reportError_never_returns_witness:
  "reportError ErrorHandler_ctor ERROR_ALSA_XRUN ''Read error: Broken pipe'' =
     Deadlock \<lparr>globalState = STATE_ERROR, lastError = ERROR_ALSA_XRUN, errorMutex = True,
               logger = [(LOG_ERR, ''ALSA xrun error: Read error: Broken pipe''),
                         (LOG_INFO, ''Global state changed to: 2'')],
               watchdogRunning = False, watchdogPing = False\<rparr>"
proof -
  have "\<not> errorMutex ErrorHandler_ctor"
    by (simp add: ErrorHandler_ctor_def)
  from reportError_never_returns [OF this, of ERROR_ALSA_XRUN "''Read error: Broken pipe''"]
  show ?thesis
    by (simp add: ErrorHandler_ctor_def)
qed

section \<open>The watchdog thread\<close>

lemma wait_timeout_flags:
  assumes "watchdogRunning eh" "Stop \<notin> set (take (WATCHDOG_TIMEOUT_MS div 100 - i) ts)"
  shows "wait_timeout i ts eh =
           eh\<lparr>watchdogPing := watchdogPing eh
                  \<or> Ping \<in> set (take (WATCHDOG_TIMEOUT_MS div 100 - i) ts)\<rparr>"
  using assms
proof (induction i ts eh rule: wait_timeout.induct)
  case (1 i ts eh)
  show ?case
  proof (cases "i < WATCHDOG_TIMEOUT_MS div 100")
    case False
    then show ?thesis
      by (subst wait_timeout.simps) simp
  next
    case True
    then obtain n where n: "WATCHDOG_TIMEOUT_MS div 100 - i = Suc n"
      "WATCHDOG_TIMEOUT_MS div 100 - (i + 1) = n"
      by (metis Suc_diff_Suc Suc_eq_plus1 diff_diff_left)
    let ?t = "case ts of [] \<Rightarrow> Quiet | t # _ \<Rightarrow> t"
    have ns: "?t \<noteq> Stop"
      using "1.prems"(2) n(1) by (cases ts) auto
    then have run': "watchdogRunning (sleep_for ?t eh)"
      using "1.prems"(1) by (cases ?t) (simp_all add: pingWatchdog_def)
    have st': "Stop \<notin> set (take (WATCHDOG_TIMEOUT_MS div 100 - (i + 1)) (tl ts))"
      using "1.prems"(2) n by (cases ts) auto
    have "wait_timeout i ts eh = wait_timeout (i + 1) (tl ts) (sleep_for ?t eh)"
      using True "1.prems"(1) by (subst wait_timeout.simps) simp
    also have "\<dots> = (sleep_for ?t eh)\<lparr>watchdogPing := watchdogPing (sleep_for ?t eh)
                  \<or> Ping \<in> set (take (WATCHDOG_TIMEOUT_MS div 100 - (i + 1)) (tl ts))\<rparr>"
      using "1.IH" [OF _ run' st'] True "1.prems"(1) by simp
    also have "\<dots> = eh\<lparr>watchdogPing := watchdogPing eh
                  \<or> Ping \<in> set (take (WATCHDOG_TIMEOUT_MS div 100 - i) ts)\<rparr>"
    proof (cases ts)
      case Nil
      then show ?thesis by simp
    next
      case (Cons t ts')
      then show ?thesis using ns n
        by (cases t) (auto simp: pingWatchdog_def)
    qed
    finally show ?thesis .
  qed
qed

lemma window_flags:
  assumes "watchdogRunning eh" "Stop \<notin> set (take (WATCHDOG_TIMEOUT_MS div 100) w)"
  shows "wait_timeout 0 w eh =
           eh\<lparr>watchdogPing := watchdogPing eh
                  \<or> Ping \<in> set (take (WATCHDOG_TIMEOUT_MS div 100) w)\<rparr>"
  using wait_timeout_flags [of eh 0 w] assms by simp

lemma window_passes:
  assumes "watchdogRunning eh" "Stop \<notin> set (take (WATCHDOG_TIMEOUT_MS div 100) w)"
    and "watchdogPing eh \<or> Ping \<in> set (take (WATCHDOG_TIMEOUT_MS div 100) w)"
  shows "watchdog_while (w # ws) eh = watchdog_while ws (eh\<lparr>watchdogPing := False\<rparr>)"
  using assms by (simp add: window_flags)

lemma window_missed:
  assumes "watchdogRunning eh" "Stop \<notin> set (take (WATCHDOG_TIMEOUT_MS div 100) w)"
    and "\<not> watchdogPing eh" "Ping \<notin> set (take (WATCHDOG_TIMEOUT_MS div 100) w)"
    and "\<not> errorMutex eh"
  shows "watchdog_while (w # ws) eh =
     Stuck (eh\<lparr>globalState := STATE_ERROR, lastError := ERROR_SYSTEM, errorMutex := True,
               logger := logger eh @ [(LOG_ERR, ''Watchdog timeout - system stalled''),
                                      (LOG_ERR, ''System error: Watchdog timeout''),
                                      (LOG_INFO, ''Global state changed to: 2'')]\<rparr>)"
proof -
  have w: "wait_timeout 0 w eh = eh"
    using window_flags [OF assms(1,2)] assms(3,4) by simp
  have "\<not> errorMutex (log eh LOG_ERR ''Watchdog timeout - system stalled'')"
    using assms(5) by (simp add: log_def)
  from reportError_deadlock [OF this]
  show ?thesis
    using assms(1,3) by (simp add: w log_def)
qed

text \<open>
  C7, as the code has it. A timeout window of a running watchdog, during which
  \<open>stopWatchdog()\<close> is not called. If a ping arrives in the window, nothing is reported:
  the thread clears the ping flag and goes on to the next window with the registry as it
  was. If no ping arrives, the flag was clear when the window began, as it is after every
  window that has passed, and the registry's mutex is free, the thread logs the timeout and
  calls \<open>reportError\<close> with \<open>ERROR_SYSTEM\<close> once: \<open>lastError\<close> becomes \<open>ERROR_SYSTEM\<close>,
  the global state \<open>STATE_ERROR\<close>, and one report is logged. If no ping arrives but the
  flag was set when the window began, as it is in the first window after
  \<open>startWatchdog()\<close>, nothing is reported and the thread goes on as after a ping.
\<close>

theorem watchdog_window:
  assumes "watchdogRunning eh"
    and "Stop \<notin> set (take (WATCHDOG_TIMEOUT_MS div 100) w)"
  shows "(Ping \<in> set (take (WATCHDOG_TIMEOUT_MS div 100) w) \<longrightarrow>
            watchdog_while (w # ws) eh = watchdog_while ws (eh\<lparr>watchdogPing := False\<rparr>))
       \<and> (Ping \<notin> set (take (WATCHDOG_TIMEOUT_MS div 100) w) \<and> \<not> watchdogPing eh
            \<and> \<not> errorMutex eh \<longrightarrow>
            watchdog_while (w # ws) eh =
              Stuck (eh\<lparr>globalState := STATE_ERROR, lastError := ERROR_SYSTEM,
                        errorMutex := True,
                        logger := logger eh @
                          [(LOG_ERR, ''Watchdog timeout - system stalled''),
                           (LOG_ERR, ''System error: Watchdog timeout''),
                           (LOG_INFO, ''Global state changed to: 2'')]\<rparr>))
       \<and> (Ping \<notin> set (take (WATCHDOG_TIMEOUT_MS div 100) w) \<and> watchdogPing eh \<longrightarrow>
            watchdog_while (w # ws) eh = watchdog_while ws (eh\<lparr>watchdogPing := False\<rparr>))"
  using window_passes [OF assms] window_missed [OF assms]
  by blast

theorem watchdog_window_witness:
  "watchdog_while [[Quiet, Ping], []]
     \<lparr>globalState = STATE_RUNNING, lastError = ERROR_NONE, errorMutex = False, logger = [],
      watchdogRunning = True, watchdogPing = False\<rparr>
   = Stuck \<lparr>globalState = STATE_ERROR, lastError = ERROR_SYSTEM, errorMutex = True,
            logger = [(LOG_ERR, ''Watchdog timeout - system stalled''),
                      (LOG_ERR, ''System error: Watchdog timeout''),
                      (LOG_INFO, ''Global state changed to: 2'')],
            watchdogRunning = True, watchdogPing = False\<rparr>"
proof -
  let ?eh = "\<lparr>globalState = STATE_RUNNING, lastError = ERROR_NONE, errorMutex = False,
              logger = [], watchdogRunning = True, watchdogPing = False\<rparr>"
  have 1: "watchdog_while [[Quiet, Ping], []] ?eh
           = watchdog_while [[]] (?eh\<lparr>watchdogPing := False\<rparr>)"
    using watchdog_window [of ?eh "[Quiet, Ping]" "[[]]"]
    by (simp add: WATCHDOG_TIMEOUT_MS_def)
  have 2: "watchdog_while [[]] (?eh\<lparr>watchdogPing := False\<rparr>)
           = Stuck (?eh\<lparr>watchdogPing := False, globalState := STATE_ERROR,
                        lastError := ERROR_SYSTEM, errorMutex := True,
                        logger := [(LOG_ERR, ''Watchdog timeout - system stalled''),
                           (LOG_ERR, ''System error: Watchdog timeout''),
                           (LOG_INFO, ''Global state changed to: 2'')]\<rparr>)"
    using watchdog_window [of "?eh\<lparr>watchdogPing := False\<rparr>" "[]" "[]"]
    by simp
  show ?thesis
    using 1 2 by simp
qed


text \<open>
  C7 as stated fails in the first window: a watchdog started on a new registry, one full
  window with no ping and no stop, and nothing is reported; the state is still
  \<open>STATE_INIT\<close> and \<open>lastError\<close> is still \<open>ERROR_NONE\<close>.
\<close>

theorem first_window_counterexample:
  "watchdogLoop [[]] (startWatchdog ErrorHandler_ctor) =
     Monitoring \<lparr>globalState = STATE_INIT, lastError = ERROR_NONE, errorMutex = False,
                 logger = [(LOG_INFO, ''Watchdog started''),
                           (LOG_INFO, ''Watchdog thread started'')],
                 watchdogRunning = True, watchdogPing = False\<rparr>"
proof -
  let ?s = "\<lparr>globalState = STATE_INIT, lastError = ERROR_NONE, errorMutex = False,
             logger = [(LOG_INFO, ''Watchdog started''),
                       (LOG_INFO, ''Watchdog thread started'')],
             watchdogRunning = True, watchdogPing = True\<rparr>"
  have s: "log (startWatchdog ErrorHandler_ctor) LOG_INFO ''Watchdog thread started'' = ?s"
    by (simp add: startWatchdog_def ErrorHandler_ctor_def log_def)
  have "watchdog_while [[]] ?s = watchdog_while [] (?s\<lparr>watchdogPing := False\<rparr>)"
    by (rule window_passes) simp_all
  then show ?thesis
    unfolding watchdogLoop_def s by simp
qed

text \<open>
  C10. \<open>startWatchdog()\<close> on a registry whose watchdog is not running sets both flags. The
  first window then ends without a report whether or not a ping arrived: only the two
  start-up lines are logged, and the state and \<open>lastError\<close> are untouched. If the second
  window brings no ping either, the error is reported at its end.
\<close>

theorem first_window_quiet:
  assumes "\<not> watchdogRunning eh" and "\<not> errorMutex eh"
    and "Stop \<notin> set (take (WATCHDOG_TIMEOUT_MS div 100) w1)"
    and "Stop \<notin> set (take (WATCHDOG_TIMEOUT_MS div 100) w2)"
    and "Ping \<notin> set (take (WATCHDOG_TIMEOUT_MS div 100) w2)"
  shows "watchdogPing (startWatchdog eh) \<and> watchdogRunning (startWatchdog eh)
       \<and> watchdogLoop [w1] (startWatchdog eh) =
           Monitoring (eh\<lparr>watchdogRunning := True, watchdogPing := False,
                          logger := logger eh @ [(LOG_INFO, ''Watchdog started''),
                                                 (LOG_INFO, ''Watchdog thread started'')]\<rparr>)
       \<and> watchdogLoop [w1, w2] (startWatchdog eh) =
           Stuck (eh\<lparr>watchdogRunning := True, watchdogPing := False,
                     globalState := STATE_ERROR, lastError := ERROR_SYSTEM,
                     errorMutex := True,
                     logger := logger eh @ [(LOG_INFO, ''Watchdog started''),
                                            (LOG_INFO, ''Watchdog thread started''),
                                            (LOG_ERR, ''Watchdog timeout - system stalled''),
                                            (LOG_ERR, ''System error: Watchdog timeout''),
                                            (LOG_INFO, ''Global state changed to: 2'')]\<rparr>)"
proof -
  let ?s = "log (startWatchdog eh) LOG_INFO ''Watchdog thread started''"
  have s: "?s = eh\<lparr>watchdogRunning := True, watchdogPing := True,
                    logger := logger eh @ [(LOG_INFO, ''Watchdog started''),
                                           (LOG_INFO, ''Watchdog thread started'')]\<rparr>"
    using assms(1) by (simp add: startWatchdog_def log_def)
  have run: "watchdogRunning ?s" and ping: "watchdogPing ?s" and mu: "\<not> errorMutex ?s"
    using assms(2) by (simp_all add: s)
  have f: "watchdogPing (startWatchdog eh) \<and> watchdogRunning (startWatchdog eh)"
    using assms(1) by (simp add: startWatchdog_def log_def)
  have w1: "watchdog_while (w1 # ws) ?s = watchdog_while ws (?s\<lparr>watchdogPing := False\<rparr>)" for ws
    using window_passes [OF run assms(3)] ping by simp
  have one: "watchdogLoop [w1] (startWatchdog eh) = Monitoring (?s\<lparr>watchdogPing := False\<rparr>)"
    unfolding watchdogLoop_def by (subst w1) simp
  have "watchdog_while [w2] (?s\<lparr>watchdogPing := False\<rparr>) =
     Stuck (?s\<lparr>watchdogPing := False, globalState := STATE_ERROR, lastError := ERROR_SYSTEM,
               errorMutex := True,
               logger := logger (?s\<lparr>watchdogPing := False\<rparr>) @
                   [(LOG_ERR, ''Watchdog timeout - system stalled''),
                    (LOG_ERR, ''System error: Watchdog timeout''),
                    (LOG_INFO, ''Global state changed to: 2'')]\<rparr>)"
    using window_missed [of "?s\<lparr>watchdogPing := False\<rparr>" w2 "[]"] run mu assms(4,5)
    by simp
  moreover have "watchdogLoop [w1, w2] (startWatchdog eh)
      = watchdog_while [w2] (?s\<lparr>watchdogPing := False\<rparr>)"
    unfolding watchdogLoop_def by (rule w1)
  ultimately have two: "watchdogLoop [w1, w2] (startWatchdog eh) =
     Stuck (?s\<lparr>watchdogPing := False, globalState := STATE_ERROR, lastError := ERROR_SYSTEM,
               errorMutex := True,
               logger := logger (?s\<lparr>watchdogPing := False\<rparr>) @
                   [(LOG_ERR, ''Watchdog timeout - system stalled''),
                    (LOG_ERR, ''System error: Watchdog timeout''),
                    (LOG_INFO, ''Global state changed to: 2'')]\<rparr>)"
    by simp
  have e1: "?s\<lparr>watchdogPing := False\<rparr> =
      eh\<lparr>watchdogRunning := True, watchdogPing := False,
         logger := logger eh @ [(LOG_INFO, ''Watchdog started''),
                                (LOG_INFO, ''Watchdog thread started'')]\<rparr>"
    unfolding s by simp
  have e2: "?s\<lparr>watchdogPing := False, globalState := STATE_ERROR, lastError := ERROR_SYSTEM,
               errorMutex := True,
               logger := logger (?s\<lparr>watchdogPing := False\<rparr>) @
                   [(LOG_ERR, ''Watchdog timeout - system stalled''),
                    (LOG_ERR, ''System error: Watchdog timeout''),
                    (LOG_INFO, ''Global state changed to: 2'')]\<rparr> =
      eh\<lparr>watchdogRunning := True, watchdogPing := False,
                     globalState := STATE_ERROR, lastError := ERROR_SYSTEM,
                     errorMutex := True,
                     logger := logger eh @ [(LOG_INFO, ''Watchdog started''),
                                            (LOG_INFO, ''Watchdog thread started''),
                                            (LOG_ERR, ''Watchdog timeout - system stalled''),
                                            (LOG_ERR, ''System error: Watchdog timeout''),
                                            (LOG_INFO, ''Global state changed to: 2'')]\<rparr>"
    unfolding s by simp
  show ?thesis
    using f one [unfolded e1] two [unfolded e2] by blast
qed

theorem first_window_quiet_witness:
  "watchdogPing (startWatchdog ErrorHandler_ctor)
   \<and> watchdogLoop [[]] (startWatchdog ErrorHandler_ctor) =
       Monitoring \<lparr>globalState = STATE_INIT, lastError = ERROR_NONE, errorMutex = False,
                   logger = [(LOG_INFO, ''Watchdog started''),
                             (LOG_INFO, ''Watchdog thread started'')],
                   watchdogRunning = True, watchdogPing = False\<rparr>
   \<and> watchdogLoop [[], []] (startWatchdog ErrorHandler_ctor) =
       Stuck \<lparr>globalState = STATE_ERROR, lastError = ERROR_SYSTEM, errorMutex = True,
               logger = [(LOG_INFO, ''Watchdog started''),
                         (LOG_INFO, ''Watchdog thread started''),
                         (LOG_ERR, ''Watchdog timeout - system stalled''),
                         (LOG_ERR, ''System error: Watchdog timeout''),
                         (LOG_INFO, ''Global state changed to: 2'')],
               watchdogRunning = True, watchdogPing = False\<rparr>"
  using first_window_quiet [of ErrorHandler_ctor "[]" "[]"]
  by (simp add: ErrorHandler_ctor_def)

section \<open>The capture stage\<close>

lemma scan_fold_fst:
  "fst (fold (\<lambda>x (hasNonZeroSamples, maxSample).
             if x \<noteq> (0 :: int16_t)
             then (True, if \<bar>sint x\<bar> > \<bar>sint maxSample\<bar> then x else maxSample)
             else (hasNonZeroSamples, maxSample)) xs (h, m))
   = (h \<or> (\<exists>x \<in> set xs. x \<noteq> 0))"
  by (induction xs arbitrary: h m) auto

lemma scan_samples_fst:
  "fst (scan_samples frames channels buf)
   = (\<exists>x \<in> set (take (nat (min (to_int (frames * int channels)) 100)) buf). x \<noteq> 0)"
  by (simp add: scan_samples_def scan_fold_fst)


text \<open>
  C5, as the code has it. A pass of the capture loop that is not paused and whose
  \<open>snd_pcm_readi\<close> returned a positive number of frames. If one of the first
  \<open>min((int)(frames * channels), 100)\<close> samples is not zero, the pass logs the capture,
  hands the \<open>frames * channels\<close> transferred samples to the downstream channel and logs
  the outcome of that write. If those leading samples are all zero, the pass logs the
  warning and does nothing else: it writes nothing downstream, reports no error and leaves
  \<open>state\<close> as it is.
\<close>

theorem capture_unless_silent:
  assumes "\<not> paused state" and "0 < c_readi io"
  shows "((\<exists>x \<in> set (take (nat (min (to_int (c_readi io * int channels)) 100)) (c_buffer io)).
             x \<noteq> 0) \<longrightarrow>
          (\<exists>m l. capture_body snd_strerror channels io state eh =
             Goes_on [Log LOG_INFO m,
                      ChannelWrite (take (nat (c_readi io * int channels)) (c_buffer io)),
                      l] state eh))
       \<and> ((\<forall>x \<in> set (take (nat (min (to_int (c_readi io * int channels)) 100)) (c_buffer io)).
             x = 0) \<longrightarrow>
          capture_body snd_strerror channels io state eh =
            Goes_on [Log LOG_WARNING ''All audio samples are zero''] state eh)"
proof -
  obtain h m where sc: "scan_samples (c_readi io) channels (c_buffer io) = (h, m)"
    by (cases "scan_samples (c_readi io) channels (c_buffer io)") 
  have h: "h = (\<exists>x \<in> set (take (nat (min (to_int (c_readi io * int channels)) 100)) (c_buffer io)).
             x \<noteq> 0)"
    using scan_samples_fst [of "c_readi io" channels "c_buffer io"] sc by simp
  show ?thesis
  proof (cases h)
    case True
    then show ?thesis
      using assms sc h by (auto simp: capture_body_def Let_def)
  next
    case False
    then show ?thesis
      using assms sc h by (auto simp: capture_body_def Let_def)
  qed
qed

theorem capture_unless_silent_witness:
  "(\<exists>m l. capture_body (\<lambda>e. ''error'') 2
       \<lparr>c_running = True, c_setState = None, c_readi = 2, c_buffer = [0, 0, 5, 65535],
        c_xrunRecovery = 0, c_written = 4\<rparr> STATE_RUNNING ErrorHandler_ctor =
     Goes_on [Log LOG_INFO m, ChannelWrite [0, 0, 5, 65535], l] STATE_RUNNING ErrorHandler_ctor)
   \<and> capture_body (\<lambda>e. ''error'') 2
       \<lparr>c_running = True, c_setState = None, c_readi = 2, c_buffer = [0, 0, 0, 0],
        c_xrunRecovery = 0, c_written = 4\<rparr> STATE_RUNNING ErrorHandler_ctor =
     Goes_on [Log LOG_WARNING ''All audio samples are zero''] STATE_RUNNING ErrorHandler_ctor"
proof -
  let ?io1 = "\<lparr>c_running = True, c_setState = None, c_readi = 2, c_buffer = [0, 0, 5, 65535],
        c_xrunRecovery = 0, c_written = 4\<rparr>"
  let ?io2 = "\<lparr>c_running = True, c_setState = None, c_readi = 2, c_buffer = [0, 0, 0, 0],
        c_xrunRecovery = 0, c_written = 4\<rparr>"
  have p: "\<not> paused STATE_RUNNING" by (simp add: paused_def)
  have n: "nat (min (to_int (2 * int 2)) 100) = 4"
    by (simp add: to_int_def)
  have 1: "\<exists>m l. capture_body (\<lambda>e. ''error'') 2 ?io1 STATE_RUNNING ErrorHandler_ctor =
     Goes_on [Log LOG_INFO m, ChannelWrite [0, 0, 5, 65535], l] STATE_RUNNING ErrorHandler_ctor"
    using capture_unless_silent [OF p, of ?io1 2 "\<lambda>e. ''error''" ErrorHandler_ctor] n by simp
  have 2: "capture_body (\<lambda>e. ''error'') 2 ?io2 STATE_RUNNING ErrorHandler_ctor =
     Goes_on [Log LOG_WARNING ''All audio samples are zero''] STATE_RUNNING ErrorHandler_ctor"
    using capture_unless_silent [OF p, of ?io2 2 "\<lambda>e. ''error''" ErrorHandler_ctor] n by simp
  show ?thesis using 1 2 by blast
qed

text \<open>
  C5 as stated fails for a silent period: two frames of two channels, all four samples
  zero, are transferred, and the stage logs the warning but hands nothing to the channel;
  the whole trace of the thread has no channel write.
\<close>

theorem silent_period_counterexample:
  "capture_body (\<lambda>e. ''error'') 2
       \<lparr>c_running = True, c_setState = None, c_readi = 2, c_buffer = [0, 0, 0, 0],
        c_xrunRecovery = 0, c_written = 4\<rparr> STATE_RUNNING ErrorHandler_ctor =
     Goes_on [Log LOG_WARNING ''All audio samples are zero''] STATE_RUNNING ErrorHandler_ctor
   \<and> captureLoop (\<lambda>e. ''error'') 2 2
       [\<lparr>c_running = True, c_setState = None, c_readi = 2, c_buffer = [0, 0, 0, 0],
         c_xrunRecovery = 0, c_written = 4\<rparr>,
        \<lparr>c_running = False, c_setState = None, c_readi = 0, c_buffer = [0, 0, 0, 0],
         c_xrunRecovery = 0, c_written = 0\<rparr>] STATE_RUNNING ErrorHandler_ctor =
     ([Log LOG_INFO ''Capture thread started, reading 2 frames per period'',
       Log LOG_WARNING ''All audio samples are zero'',
       Log LOG_INFO ''Capture thread stopped''], Stopped)"
  by code_simp

section \<open>The output stage\<close>

text \<open>
  A \<open>read\<close> on the channel returns fewer samples than asked only if the channel is closed.
\<close>

lemma reads_inv_closed_mono:
  assumes "list_all (\<lambda>(sz, out). length out \<le> sz \<and> (length out < sz \<longrightarrow> c)) rs" "c \<longrightarrow> c'"
  shows "list_all (\<lambda>(sz, out). length out \<le> sz \<and> (length out < sz \<longrightarrow> c')) rs"
  using assms by (induction rs) auto

lemma read_section_reads:
  assumes inv: "pipe_inv k p" and ri: "reads_inv p"
    and tk: "reader_taken (reader p) = out" and lo: "length out < sz \<or> out = []"
    and res: "r = read_loop (chan p) sz out \<or> (closed (chan p) \<and> length out < sz \<and> r = (chan p, out, Returned))"
  shows "reads_inv (reader_section p sz r)"
proof -
  from inv have ci: "chan_inv k (chan p)" by (simp add: pipe_inv_def)
  let ?c = "contents (chan p)"
  let ?st = "if sz \<le> length out + length ?c \<or> closed (chan p) then Returned else Waiting"
  from read_loop_spec [OF ci] obtain cb' where
    rl: "read_loop (chan p) sz out = (cb', out @ take (sz - length out) ?c, ?st)"
    and cl': "closed cb' = closed (chan p)"
    by blast
  from ri have old: "list_all (\<lambda>(sz, out). length out \<le> sz \<and> (length out < sz \<longrightarrow> closed (chan p))) (reads p)"
    by (simp add: reads_inv_def)
  have le: "length out \<le> sz" using lo by auto
  from res show ?thesis
  proof
    assume "r = read_loop (chan p) sz out"
    then have r: "r = (cb', out @ take (sz - length out) ?c, ?st)" using rl by simp
    show ?thesis
    proof (cases "sz \<le> length out + length ?c \<or> closed (chan p)")
      case True
      then have "length (out @ take (sz - length out) ?c) \<le> sz
          \<and> (length (out @ take (sz - length out) ?c) < sz \<longrightarrow> closed cb')"
        using le cl' by auto
      then show ?thesis
        using True old cl' by (simp add: r reads_inv_def)
    next
      case False
      then have "length (out @ take (sz - length out) ?c) < sz"
        by auto
      then show ?thesis
        using False old cl' by (simp add: r reads_inv_def)
    qed
  next
    assume "closed (chan p) \<and> length out < sz \<and> r = (chan p, out, Returned)"
    then show ?thesis
      using old by (simp add: reads_inv_def)
  qed
qed

lemma writer_section_reads:
  "reads (writer_section p data x) = reads p \<and> reader (writer_section p data x) = reader p"
  by (cases "(p, data, x)" rule: writer_section.cases) simp_all

lemma step_reads_inv:
  assumes inv: "pipe_inv k p" and ri: "reads_inv p" and st: "step e p = Some p'"
  shows "reads_inv p'"
proof -
  have keep: "reads_inv p'" if "reads p' = reads p" "reader p' = reader p"
  proof -
    have "closed (chan p) \<longrightarrow> closed (chan p')"
      using step_keeps_closed [OF inv st] by blast
    with ri that show ?thesis
      unfolding reads_inv_def using reads_inv_closed_mono by auto
  qed
  show ?thesis
  proof (cases e)
    case (Write data)
    with st have "p' = writer_section p data (CircularBuffer_write (chan p) data)"
      by (auto split: writer_state.splits)
    then show ?thesis by (intro keep) (simp_all add: writer_section_reads)
  next
    case WriterWakes
    with st obtain data written where
      "p' = writer_section p data (write_wake (chan p) data written)"
      by (auto split: writer_state.splits)
    then show ?thesis by (intro keep) (simp_all add: writer_section_reads)
  next
    case (Read sz)
    with st have r: "reader p = ReaderIdle"
      and p': "p' = reader_section p sz (CircularBuffer_read (chan p) sz)"
      by (auto split: reader_state.splits)
    show ?thesis unfolding p'
      by (rule read_section_reads [OF inv ri, where out = "[]"])
        (auto simp: r CircularBuffer_read_def)
  next
    case ReaderWakes
    with st obtain sz out where r: "reader p = ReaderWaiting sz out"
      and p': "p' = reader_section p sz (read_wake (chan p) sz out)"
      by (auto split: reader_state.splits)
    have "length out < sz" using ri r by (simp add: reads_inv_def)
    then show ?thesis unfolding p'
      by (intro read_section_reads [OF inv ri, where out = out]) (auto simp: r read_wake_def)
  next
    case Close
    with st have "p' = p\<lparr>chan := CircularBuffer_close (chan p)\<rparr>" by simp
    then show ?thesis by (intro keep) simp_all
  qed
qed

lemma run_reads_inv:
  assumes "pipe_inv k p" "reads_inv p" "run es p = Some p'"
  shows "reads_inv p'"
  using assms
proof (induction es arbitrary: p)
  case Nil
  then show ?case by simp
next
  case (Cons e es)
  from Cons.prems(3) obtain q where q: "step e p = Some q" and rq: "run es q = Some p'"
    by (auto split: option.splits)
  have "pipe_inv k q" using Cons.prems(1) q by (rule step_inv)
  moreover have "reads_inv q" using Cons.prems(1,2) q by (rule step_reads_inv)
  ultimately show ?case using rq by (rule Cons.IH)
qed

lemma short_read_closed:
  assumes "k < 64" "CircularBuffer_ctor max_size allocates (2 ^ k) = Inr cb"
    "run es (new_pipe cb) = Some p"
    and "(sz, out) \<in> set (reads p)"
  shows "length out \<le> sz \<and> (length out < sz \<longrightarrow> closed (chan p))"
proof -
  have "pipe_inv k (new_pipe cb)" using assms(1,2) by (rule ctor_inv)
  moreover have "reads_inv (new_pipe cb)" by (simp add: reads_inv_def new_pipe_def)
  ultimately have "reads_inv p" using assms(3) by (rule run_reads_inv)
  then show ?thesis
    using assms(4) by (auto simp: reads_inv_def list_all_iff)
qed

lemma whole_periods_append [simp]:
  "whole_periods n (xs @ ys) = (whole_periods n xs \<and> whole_periods n ys)"
  by (simp add: whole_periods_def)

lemma whole_periods_Cons [simp]:
  "whole_periods n (a # xs) = (whole_period n a \<and> whole_periods n xs)"
  by (simp add: whole_periods_def)

lemma whole_periods_Nil [simp]: "whole_periods n []"
  by (simp add: whole_periods_def)

lemma resume_loop_whole: "whole_periods n (fst (resume_loop errs))"
  by (induction errs) (auto split: prod.splits)

lemma write_fault_whole:
  assumes "length period = n"
  shows "whole_periods n (fst (write_fault snd_strerror io period frames))"
proof -
  have r: "whole_periods n acts" if "resume_loop (o_resume io) = (acts, x)" for acts x
    using resume_loop_whole [of n "o_resume io"] that by simp
  show ?thesis
    using assms r
    by (auto simp: write_fault_def Let_def split: prod.splits option.splits)
qed

lemma output_body_whole:
  assumes "length buf = n" "length (o_read io) \<le> n"
  shows "whole_periods n (pass_actions (output_body snd_strerror n io state buf))
       \<and> (\<forall>acts state' buf'. output_body snd_strerror n io state buf = Next acts state' buf'
            \<longrightarrow> length buf' = n)"
proof -
  let ?rd = "o_read io"
  let ?buf1 = "?rd @ drop (length ?rd) buf"
  let ?buf2 = "if length ?rd < n then take (length ?rd) ?buf1 @ replicate (n - length ?rd) 0
               else ?buf1"
  have l1: "length ?buf1 = n" using assms by simp
  have l2: "length ?buf2 = n" using assms by simp
  then have t: "length (take n ?buf2) = n" by simp
  have wf: "whole_periods n (fst (write_fault snd_strerror io (take n ?buf2) (o_writei io)))"
    using t by (rule write_fault_whole)
  show ?thesis
  proof (cases "paused state")
    case True
    then show ?thesis using assms(1) by (simp add: output_body_def)
  next
    case False
    show ?thesis
    proof (cases "length ?rd < n \<and> o_isClosed io")
      case True
      then show ?thesis using False by (simp add: output_body_def Let_def)
    next
      case nc: False
      show ?thesis
      proof (cases "length ?rd < n \<and> \<not> length ?rd > 0")
        case True
        then show ?thesis using False nc assms
          by (simp add: output_body_def Let_def)
      next
        case go: False
        show ?thesis
          using False nc go wf t l2
          by (cases "snd (write_fault snd_strerror io (take n ?buf2) (o_writei io))")
            (simp_all add: output_body_def Let_def del: take_all take_all_iff)
      qed
    qed
  qed
qed

lemma output_while_whole:
  assumes "length buf = n" "\<forall>io \<in> set ios. length (o_read io) \<le> n"
  shows "whole_periods n (fst (output_while snd_strerror n ios state buf))"
  using assms
proof (induction ios arbitrary: state buf)
  case Nil
  then show ?case by simp
next
  case (Cons io ios)
  let ?st = "case o_setState io of None \<Rightarrow> state | Some s \<Rightarrow> s"
  have rd: "length (o_read io) \<le> n" using Cons.prems(2) by simp
  note b = output_body_whole [OF Cons.prems(1) rd, of snd_strerror ?st]
  show ?case
  proof (cases "o_running io")
    case False
    then show ?thesis by simp
  next
    case True
    show ?thesis
    proof (cases "output_body snd_strerror n io ?st buf")
      case (Next acts state' buf')
      then have "length buf' = n" and "whole_periods n acts" using b by auto
      moreover have "whole_periods n (fst (output_while snd_strerror n ios state' buf'))"
        using Cons.IH [OF \<open>length buf' = n\<close>] Cons.prems(2) by simp
      ultimately show ?thesis using True Next
        by (cases "output_while snd_strerror n ios state' buf'") simp
    next
      case (Leave acts)
      then show ?thesis using True b by simp
    next
      case (Stays acts)
      then show ?thesis using True b by simp
    qed
  qed
qed

lemma outputLoop_whole:
  assumes "\<forall>io \<in> set ios. length (o_read io) \<le> n"
  shows "whole_periods n (fst (outputLoop snd_strerror n ios state))"
  using output_while_whole [of "replicate n 0" n ios snd_strerror state] assms
  by (cases "output_while snd_strerror n ios state (replicate n 0)")
    (simp add: outputLoop_def)

lemma outputLoop_preroll:
  "\<exists>m rest e. outputLoop snd_strerror n ios state =
     (Log LOG_INFO m # PcmWrite (replicate n 0) # PcmWrite (replicate n 0) # rest, e)"
  by (cases "output_while snd_strerror n ios state (replicate n 0)")
    (simp add: outputLoop_def)

lemma short_read_closed_leaves:
  assumes "\<not> paused state" "length (o_read io) < n" "o_isClosed io"
  shows "output_body snd_strerror n io state buf =
           Leave [Log LOG_INFO ''Input buffer closed, exiting output loop'']"
  using assms by (simp add: output_body_def Let_def)

lemma short_read_closed_stops:
  assumes "\<not> paused state" "length (o_read io) < n" "o_isClosed io"
    "o_running io" "o_setState io = None"
  shows "output_while snd_strerror n (io # ios) state buf =
           ([Log LOG_INFO ''Input buffer closed, exiting output loop'',
             Log LOG_INFO ''Output thread stopped''], Stopped)"
  using assms by (simp add: short_read_closed_leaves)

lemma short_read_open_pads:
  assumes "\<not> paused state" "length (o_read io) < n" "\<not> o_isClosed io" "o_read io \<noteq> []"
  shows "\<exists>rest. pass_actions (output_body snd_strerror n io state buf) =
           Log LOG_WARNING ''Buffer underrun in output, padding with silence''
           # PcmWrite (o_read io @ replicate (n - length (o_read io)) 0) # rest"
proof -
  let ?rd = "o_read io"
  let ?p = "?rd @ replicate (n - length ?rd) 0"
  have t: "take n ?p = ?p" using assms(2) by simp
  show ?thesis
  proof (cases "o_writei io < 0")
    case False
    then show ?thesis
      using assms by (simp add: output_body_def Let_def)
  next
    case True
    then show ?thesis
      using assms
      by (cases "snd (write_fault snd_strerror io ?p (o_writei io))")
        (simp_all add: output_body_def Let_def)
  qed
qed

text \<open>
  C6. Whatever the channel and the device answer, as long as \<open>read\<close> delivers at most the
  \<open>periodSize\<close> samples asked for: the thread's first two device writes are two periods of
  silence, before any pass of the loop; every device write of the thread, first attempts
  and retries alike, is a whole period. In a pass that is not paused and gets a short read:
  if the channel is closed the pass leaves the loop with one information line, nothing is
  written to the device, nothing is reported and the thread ends; if the channel is open and
  some samples came, the pass logs the underrun and writes the samples followed by zeroes up
  to the period. And a \<open>read\<close> of the channel that returned short found the channel
  closed, in every run of a channel's two threads.
\<close>

theorem output_stage:
  assumes "\<forall>io \<in> set ios. length (o_read io) \<le> periodSize"
  shows "(\<exists>m rest e. outputLoop snd_strerror periodSize ios state =
            (Log LOG_INFO m # PcmWrite (replicate periodSize 0)
               # PcmWrite (replicate periodSize 0) # rest, e))
       \<and> whole_periods periodSize (fst (outputLoop snd_strerror periodSize ios state))
       \<and> (\<forall>io st buf ios'.
            \<not> paused st \<and> length (o_read io) < periodSize \<and> o_isClosed io \<longrightarrow>
              output_body snd_strerror periodSize io st buf =
                Leave [Log LOG_INFO ''Input buffer closed, exiting output loop'']
              \<and> (o_running io \<and> o_setState io = None \<longrightarrow>
                   output_while snd_strerror periodSize (io # ios') st buf =
                     ([Log LOG_INFO ''Input buffer closed, exiting output loop'',
                       Log LOG_INFO ''Output thread stopped''], Stopped)))
       \<and> (\<forall>io st buf.
            \<not> paused st \<and> length (o_read io) < periodSize \<and> \<not> o_isClosed io
              \<and> o_read io \<noteq> [] \<longrightarrow>
              (\<exists>rest. pass_actions (output_body snd_strerror periodSize io st buf) =
                 Log LOG_WARNING ''Buffer underrun in output, padding with silence''
                 # PcmWrite (o_read io @ replicate (periodSize - length (o_read io)) 0) # rest))
       \<and> (\<forall>k max_size allocates cb es p sz out.
            k < 64 \<and> CircularBuffer_ctor max_size allocates (2 ^ k) = Inr cb
              \<and> run es (new_pipe cb) = Some p
              \<and> (sz, out) \<in> set (reads p) \<longrightarrow>
              length out \<le> sz \<and> (length out < sz \<longrightarrow> closed (chan p)))"
proof -
  have 1: "\<exists>m rest e. outputLoop snd_strerror periodSize ios state =
            (Log LOG_INFO m # PcmWrite (replicate periodSize 0)
               # PcmWrite (replicate periodSize 0) # rest, e)"
    by (rule outputLoop_preroll)
  have 2: "whole_periods periodSize (fst (outputLoop snd_strerror periodSize ios state))"
    using assms by (rule outputLoop_whole)
  have 3: "\<forall>io st buf ios'.
            \<not> paused st \<and> length (o_read io) < periodSize \<and> o_isClosed io \<longrightarrow>
              output_body snd_strerror periodSize io st buf =
                Leave [Log LOG_INFO ''Input buffer closed, exiting output loop'']
              \<and> (o_running io \<and> o_setState io = None \<longrightarrow>
                   output_while snd_strerror periodSize (io # ios') st buf =
                     ([Log LOG_INFO ''Input buffer closed, exiting output loop'',
                       Log LOG_INFO ''Output thread stopped''], Stopped))"
    using short_read_closed_leaves short_read_closed_stops by blast
  have 4: "\<forall>io st buf.
            \<not> paused st \<and> length (o_read io) < periodSize \<and> \<not> o_isClosed io
              \<and> o_read io \<noteq> [] \<longrightarrow>
              (\<exists>rest. pass_actions (output_body snd_strerror periodSize io st buf) =
                 Log LOG_WARNING ''Buffer underrun in output, padding with silence''
                 # PcmWrite (o_read io @ replicate (periodSize - length (o_read io)) 0) # rest)"
    using short_read_open_pads by blast
  have 5: "\<forall>k max_size allocates cb es p sz out.
            k < 64 \<and> CircularBuffer_ctor max_size allocates (2 ^ k) = Inr cb
              \<and> run es (new_pipe cb) = Some p
              \<and> (sz, out) \<in> set (reads p) \<longrightarrow>
              length out \<le> sz \<and> (length out < sz \<longrightarrow> closed (chan p))"
    using short_read_closed by blast
  show ?thesis
    using 1 2 3 4 5 by (intro conjI)
qed

theorem output_stage_witness:
  "outputLoop (\<lambda>e. ''error'') 4
     [\<lparr>o_running = True, o_setState = None, o_read = [1, 2, 3, 4], o_isClosed = False,
       o_writei = 4, o_recover = 0, o_resume = [], o_prepare = 0, o_retry = 0\<rparr>,
      \<lparr>o_running = True, o_setState = None, o_read = [5, 6], o_isClosed = False,
       o_writei = - 32, o_recover = 0, o_resume = [], o_prepare = 0, o_retry = 3\<rparr>,
      \<lparr>o_running = True, o_setState = None, o_read = [7], o_isClosed = True,
       o_writei = 4, o_recover = 0, o_resume = [], o_prepare = 0, o_retry = 0\<rparr>]
     STATE_RUNNING
   = ([Log LOG_INFO ''Output thread started, writing 4 frames per period'',
       PcmWrite [0, 0, 0, 0], PcmWrite [0, 0, 0, 0], PcmWrite [1, 2, 3, 4],
       Log LOG_INFO ''Wrote 4 frames to audio output'',
       Log LOG_WARNING ''Buffer underrun in output, padding with silence'',
       PcmWrite [5, 6, 0, 0], Log LOG_WARNING ''ALSA write error: error'',
       Log LOG_WARNING ''ALSA buffer underrun'', PcmRecover,
       PcmWrite [5, 6, 0, 0], Log LOG_WARNING ''Short write: 3 frames of 4'',
       Log LOG_INFO ''Input buffer closed, exiting output loop'',
       Log LOG_INFO ''Output thread stopped''], Stopped)
   \<and> whole_periods 4
       [Log LOG_INFO ''Output thread started, writing 4 frames per period'',
       PcmWrite [0, 0, 0, 0], PcmWrite [0, 0, 0, 0], PcmWrite [1, 2, 3, 4],
       Log LOG_INFO ''Wrote 4 frames to audio output'',
       Log LOG_WARNING ''Buffer underrun in output, padding with silence'',
       PcmWrite [5, 6, 0, 0], Log LOG_WARNING ''ALSA write error: error'',
       Log LOG_WARNING ''ALSA buffer underrun'', PcmRecover,
       PcmWrite [5, 6, 0, 0], Log LOG_WARNING ''Short write: 3 frames of 4'',
       Log LOG_INFO ''Input buffer closed, exiting output loop'',
       Log LOG_INFO ''Output thread stopped'']
   \<and> output_body (\<lambda>e. ''error'') 4
       \<lparr>o_running = True, o_setState = None, o_read = [7], o_isClosed = True,
        o_writei = 4, o_recover = 0, o_resume = [], o_prepare = 0, o_retry = 0\<rparr>
       STATE_RUNNING [5, 6, 0, 0]
     = Leave [Log LOG_INFO ''Input buffer closed, exiting output loop'']"
proof -
  let ?io1 = "\<lparr>o_running = True, o_setState = None, o_read = [1, 2, 3, 4], o_isClosed = False,
       o_writei = 4, o_recover = 0, o_resume = [], o_prepare = 0, o_retry = 0\<rparr>"
  let ?io2 = "\<lparr>o_running = True, o_setState = None, o_read = [5, 6], o_isClosed = False,
       o_writei = - 32, o_recover = 0, o_resume = [], o_prepare = 0, o_retry = 3\<rparr>"
  let ?io3 = "\<lparr>o_running = True, o_setState = None, o_read = [7], o_isClosed = True,
       o_writei = 4, o_recover = 0, o_resume = [], o_prepare = 0, o_retry = 0\<rparr>"
  let ?tr = "[Log LOG_INFO ''Output thread started, writing 4 frames per period'',
       PcmWrite [0, 0, 0, 0], PcmWrite [0, 0, 0, 0], PcmWrite [1, 2, 3, 4],
       Log LOG_INFO ''Wrote 4 frames to audio output'',
       Log LOG_WARNING ''Buffer underrun in output, padding with silence'',
       PcmWrite [5, 6, 0, 0], Log LOG_WARNING ''ALSA write error: error'',
       Log LOG_WARNING ''ALSA buffer underrun'', PcmRecover,
       PcmWrite [5, 6, 0, 0], Log LOG_WARNING ''Short write: 3 frames of 4'',
       Log LOG_INFO ''Input buffer closed, exiting output loop'',
       Log LOG_INFO ''Output thread stopped'']"
  have r: "outputLoop (\<lambda>e. ''error'') 4 [?io1, ?io2, ?io3] STATE_RUNNING = (?tr, Stopped)"
    by code_simp
  have h: "\<forall>io \<in> set [?io1, ?io2, ?io3]. length (o_read io) \<le> 4"
    by simp
  note t = output_stage [OF h, of "\<lambda>e. ''error''" STATE_RUNNING]
  from t have "whole_periods 4 (fst (outputLoop (\<lambda>e. ''error'') 4 [?io1, ?io2, ?io3] STATE_RUNNING))"
    by blast
  then have w: "whole_periods 4 ?tr"
    by (simp only: r fst_conv)
  have p: "\<not> paused STATE_RUNNING" by (simp add: paused_def)
  from t have "\<not> paused STATE_RUNNING \<and> length (o_read ?io3) < 4 \<and> o_isClosed ?io3 \<longrightarrow>
              output_body (\<lambda>e. ''error'') 4 ?io3 STATE_RUNNING [5, 6, 0, 0] =
                Leave [Log LOG_INFO ''Input buffer closed, exiting output loop'']"
    by blast
  then have l: "output_body (\<lambda>e. ''error'') 4 ?io3 STATE_RUNNING [5, 6, 0, 0] =
                Leave [Log LOG_INFO ''Input buffer closed, exiting output loop'']"
    using p by simp
  show ?thesis
    using r w l by (intro conjI)
qed

section \<open>Construction\<close>

text \<open>
  The constructor's test \<open>size & (size - 1)\<close> is 0 exactly for 0 and for the powers of
  two.
\<close>

lemma and_pred_nat:
  fixes x :: nat
  assumes "0 < x" "x AND (x - 1) = 0"
  shows "\<exists>k. x = 2 ^ k"
  using assms
proof (induction x rule: less_induct)
  case (less x)
  show ?case
  proof (cases "even x")
    case True
    then obtain y where y: "x = 2 * y" by (auto elim: evenE)
    with less.prems(1) have y0: "0 < y" by simp
    have "x - 1 = 2 * (y - 1) + 1" using y y0 by simp
    then have "x AND (x - 1) = 2 * (y AND (y - 1))"
      using y by (subst and_rec) simp
    with less.prems(2) have "y AND (y - 1) = 0" by simp
    moreover have "y < x" using y y0 by simp
    ultimately obtain k where "y = 2 ^ k" using less.IH y0 by blast
    then have "x = 2 ^ Suc k" using y by simp
    then show ?thesis by blast
  next
    case False
    then obtain y where y: "x = 2 * y + 1" by (auto elim: oddE)
    then have "x AND (x - 1) = 2 * y"
      by (subst and_rec) simp
    with less.prems(2) have "y = 0" by simp
    then have "x = 2 ^ 0" using y by simp
    then show ?thesis by blast
  qed
qed

lemma and_pred_word:
  fixes x :: size_t
  assumes "x \<noteq> 0" "x AND (x - 1) = 0"
  shows "\<exists>k<64. x = 2 ^ k"
proof -
  have "1 \<le> x" using assms(1) by (simp add: word_le_nat_alt unat_gt_0 Suc_leI)
  then have u1: "unat (x - 1) = unat x - 1"
    using unat_sub [of 1 x] by simp
  have "unat (x AND (x - 1)) = unat x AND unat (x - 1)"
    by (simp add: unsigned_and_eq)
  with assms(2) u1 have "unat x AND (unat x - 1) = 0" by simp
  moreover have "0 < unat x" using assms(1) by (simp add: unat_gt_0)
  ultimately obtain k where k: "unat x = 2 ^ k" using and_pred_nat by blast
  have "unat x < 2 ^ 64" using unsigned_less [of x] by simp
  then have "(2::nat) ^ k < 2 ^ 64" using k by simp
  then have "k < 64" by (rule power_less_imp_less_exp [rotated]) simp
  moreover have "x = 2 ^ k"
  proof -
    have "x = of_nat (unat x)" by simp
    also have "\<dots> = of_nat (2 ^ k)" by (simp only: k)
    finally show ?thesis by simp
  qed
  ultimately show ?thesis by blast
qed

lemma ctor_pow2_outcome:
  assumes "k < 64"
  shows "CircularBuffer_ctor max_size allocates (2 ^ k) =
           (if max_size < 2 ^ k then Inl length_error
            else if \<not> allocates (2 ^ k) then Inl bad_alloc
            else Inr \<lparr>buffer = replicate (2 ^ k) 0, readPos = 0, writePos = 0,
                      bufferSize = 2 ^ k, bufferMask = 2 ^ k - 1, closed = False\<rparr>)"
  using assms by (simp add: CircularBuffer_ctor_def pow2_and_pred pow2_unat)

text \<open>
  C8, what the code does. At the requested capacity 0, which is not a power of two, the
  test \<open>size & (size - 1)\<close> is 0, so \<open>std::invalid_argument\<close> is not thrown;
  \<open>buffer.resize(0)\<close> throws nothing either, and a channel with an empty sample array,
  capacity 0 and mask \<open>2^64 - 1\<close> is built, whatever the library's limits. At every other
  capacity the test is right: \<open>std::invalid_argument\<close> is thrown exactly when the capacity
  is not a power of two.
\<close>

theorem ctor_zero_accepted:
  "CircularBuffer_ctor max_size allocates 0 =
     Inr \<lparr>buffer = [], readPos = 0, writePos = 0, bufferSize = 0,
          bufferMask = - 1, closed = False\<rparr>
   \<and> (\<forall>k. unat (0 :: size_t) \<noteq> 2 ^ k)
   \<and> (\<forall>sz. sz \<noteq> 0 \<longrightarrow>
         ((\<forall>k<64. sz \<noteq> 2 ^ k) \<longleftrightarrow>
            CircularBuffer_ctor max_size allocates sz =
              Inl (invalid_argument ''Buffer size must be a power of 2'')))"
proof -
  have z: "CircularBuffer_ctor max_size allocates 0 =
     Inr \<lparr>buffer = [], readPos = 0, writePos = 0, bufferSize = 0,
          bufferMask = - 1, closed = False\<rparr>"
    by (simp add: CircularBuffer_ctor_def)
  have n: "\<forall>k. unat (0 :: size_t) \<noteq> 2 ^ k"
    by simp
  have c: "(\<forall>k<64. sz \<noteq> 2 ^ k) \<longleftrightarrow>
            CircularBuffer_ctor max_size allocates sz =
              Inl (invalid_argument ''Buffer size must be a power of 2'')"
    if nz: "sz \<noteq> 0" for sz
  proof (cases "sz AND (sz - 1) = 0")
    case True
    then obtain k where "k < 64" "sz = 2 ^ k"
      using and_pred_word [OF nz True] by blast
    then show ?thesis
      using True by (auto simp: CircularBuffer_ctor_def)
  next
    case False
    then have "\<forall>k<64. sz \<noteq> 2 ^ k"
      using pow2_and_pred by auto
    then show ?thesis
      using False by (auto simp: CircularBuffer_ctor_def)
  qed
  show ?thesis
    using z n c by blast
qed

theorem ctor_zero_accepted_witness:
  "CircularBuffer_ctor 4611686018427387903 (\<lambda>n. n \<le> 1048576) 0 =
     Inr \<lparr>buffer = [], readPos = 0, writePos = 0, bufferSize = 0,
          bufferMask = - 1, closed = False\<rparr>
   \<and> CircularBuffer_ctor 4611686018427387903 (\<lambda>n. n \<le> 1048576) 6 =
       Inl (invalid_argument ''Buffer size must be a power of 2'')
   \<and> CircularBuffer_ctor 4611686018427387903 (\<lambda>n. n \<le> 1048576) 4096 \<noteq>
       Inl (invalid_argument ''Buffer size must be a power of 2'')"
proof -
  note t = ctor_zero_accepted [of 4611686018427387903 "\<lambda>n. n \<le> 1048576"]
  from t have 1: "CircularBuffer_ctor 4611686018427387903 (\<lambda>n. n \<le> 1048576) 0 =
     Inr \<lparr>buffer = [], readPos = 0, writePos = 0, bufferSize = 0,
          bufferMask = - 1, closed = False\<rparr>"
    by blast
  have 2: "CircularBuffer_ctor 4611686018427387903 (\<lambda>n. n \<le> 1048576) 6 =
       Inl (invalid_argument ''Buffer size must be a power of 2'')"
    by (simp add: CircularBuffer_ctor_def)
  have "(4096 :: size_t) \<noteq> 0" by simp
  moreover have "\<not> (\<forall>k<64. (4096 :: size_t) \<noteq> 2 ^ k)"
  proof -
    have "(12::nat) < 64 \<and> (4096 :: size_t) = 2 ^ 12" by simp
    then show ?thesis by blast
  qed
  ultimately have 3: "CircularBuffer_ctor 4611686018427387903 (\<lambda>n. n \<le> 1048576) 4096 \<noteq>
       Inl (invalid_argument ''Buffer size must be a power of 2'')"
    using t by blast
  show ?thesis using 1 2 3 by blast
qed

end
